theory Spec2Isabelle
  imports Complex_Main "HOL-Library.Word" "HOL-Library.Extended_Nat"
begin

section \<open>Values, objects and the movable marker (src/common.ts)\<close>

text \<open>
  Property keys are strings or symbols; a symbol is identified by the number of its
  creation.  An object has its own data properties (kept in definition order), an optional
  prototype and the extensible flag.  A function is an object whose \<^verbatim>\<open>typeof\<close>
  is \<^verbatim>\<open>function\<close>.
\<close>

datatype key = KStr string | KSym nat

datatype jsval =
    VUndefined
  | VNull
  | VBool bool
  | VNum int
  | VStr string
  | VSymbol nat
  | VObj jsobj
  | VFunc jsobj
and jsobj = Obj (own: "(key \<times> jsprop) list") (proto: "jsobj option") (extensible: bool)
and jsprop = Prop (pvalue: jsval) (enumerable: bool) (writable: bool) (configurable: bool)

datatype error =
    TypeError string
  | RangeError string
  | Error string
  | AbortError
  | AssertionError

fun typeof :: "jsval \<Rightarrow> string" where
  "typeof VUndefined = ''undefined''"
| "typeof VNull = ''object''"
| "typeof (VBool b) = ''boolean''"
| "typeof (VNum n) = ''number''"
| "typeof (VStr s) = ''string''"
| "typeof (VSymbol n) = ''symbol''"
| "typeof (VObj o') = ''object''"
| "typeof (VFunc o') = ''function''"

text \<open>The \<^verbatim>\<open>in\<close> operator on an object: own properties, then the prototype chain.\<close>

fun has_property :: "key \<Rightarrow> jsobj \<Rightarrow> bool" where
  "has_property k (Obj ps pr ex) =
     (case map_of ps k of
        Some p \<Rightarrow> True
      | None \<Rightarrow> (case pr of None \<Rightarrow> False | Some parent \<Rightarrow> has_property k parent))"

text \<open>Property read \<^verbatim>\<open>o[k]\<close>: the nearest definition on the chain, else undefined.\<close>

fun get_property :: "key \<Rightarrow> jsobj \<Rightarrow> jsval" where
  "get_property k (Obj ps pr ex) =
     (case map_of ps k of
        Some p \<Rightarrow> pvalue p
      | None \<Rightarrow> (case pr of None \<Rightarrow> VUndefined | Some parent \<Rightarrow> get_property k parent))"

text \<open>\<^verbatim>\<open>value != null\<close> is false for null and for undefined.\<close>

definition not_nullish :: "jsval \<Rightarrow> bool" where
  "not_nullish v = (v \<noteq> VNull \<and> v \<noteq> VUndefined)"

definition isTransferable :: "jsval \<Rightarrow> bool" where
  "isTransferable v =
     (not_nullish v \<and> typeof v = ''object'' \<and>
      (case v of VObj ob \<Rightarrow> has_property (KStr ''transferable'') ob | _ \<Rightarrow> False))"

text \<open>The module-private symbol \<^verbatim>\<open>Symbol('Piscina.kMovable')\<close>.\<close>

definition kMovable :: key where
  "kMovable = KSym 0"

text \<open>The read \<^verbatim>\<open>value[k]\<close>: it throws on null and undefined, a function is an object,
  and the wrapper of another primitive has no such property.\<close>

fun member :: "jsval \<Rightarrow> key \<Rightarrow> error + jsval" where
  "member VUndefined k = Inl (TypeError ''Cannot read properties of undefined'')"
| "member VNull k = Inl (TypeError ''Cannot read properties of null'')"
| "member (VObj ob) k = Inr (get_property k ob)"
| "member (VFunc ob) k = Inr (get_property k ob)"
| "member v k = Inr VUndefined"

text \<open>\<^verbatim>\<open>isTransferable(value) && value[kMovable] === true\<close>: the read is evaluated
  only when the first conjunct holds.\<close>

definition isMovable :: "jsval \<Rightarrow> bool" where
  "isMovable v = (isTransferable v \<and> member v kMovable = Inr (VBool True))"

text \<open>
  \<^verbatim>\<open>Object.defineProperty(o, k, {enumerable: e, value: v})\<close> on a data property.
  A new property needs an extensible object and gets the absent attributes as false; an
  existing non-configurable property only accepts a descriptor that changes nothing.
\<close>

fun update_own :: "key \<Rightarrow> jsprop \<Rightarrow> (key \<times> jsprop) list \<Rightarrow> (key \<times> jsprop) list" where
  "update_own k p [] = [(k, p)]"
| "update_own k p ((k', p') # ps) =
     (if k' = k then (k, p) # ps else (k', p') # update_own k p ps)"

definition defineProperty :: "jsobj \<Rightarrow> key \<Rightarrow> bool \<Rightarrow> jsval \<Rightarrow> error + jsobj" where
  "defineProperty ob k e v =
     (case map_of (own ob) k of
        None \<Rightarrow>
          if extensible ob
          then Inr (Obj (own ob @ [(k, Prop v e False False)]) (proto ob) (extensible ob))
          else Inl (TypeError ''Cannot define property, object is not extensible'')
      | Some cur \<Rightarrow>
          if \<not> configurable cur \<and> (enumerable cur \<noteq> e \<or> (\<not> writable cur \<and> pvalue cur \<noteq> v))
          then Inl (TypeError ''Cannot redefine property'')
          else Inr (Obj (update_own k (Prop v e (writable cur) (configurable cur)) (own ob))
                        (proto ob) (extensible ob)))"

text \<open>\<^verbatim>\<open>markMovable\<close> mutates its argument; the model returns the mutated value.\<close>

definition markMovable :: "jsval \<Rightarrow> error + jsval" where
  "markMovable v =
     (case v of
        VObj ob \<Rightarrow> (case defineProperty ob kMovable False (VBool True) of
                      Inl err \<Rightarrow> Inl err | Inr ob' \<Rightarrow> Inr (VObj ob'))
      | VFunc ob \<Rightarrow> (case defineProperty ob kMovable False (VBool True) of
                      Inl err \<Rightarrow> Inl err | Inr ob' \<Rightarrow> Inr (VFunc ob'))
      | _ \<Rightarrow> Inl (TypeError ''Object.defineProperty called on non-object''))"

text \<open>No object on the chain carries the marker: \<^verbatim>\<open>markMovable\<close> was never applied.\<close>

fun unmarked :: "jsobj \<Rightarrow> bool" where
  "unmarked (Obj ps pr ex) =
     (map_of ps kMovable = None \<and> (case pr of None \<Rightarrow> True | Some parent \<Rightarrow> unmarked parent))"


section \<open>Options and their normalisation (ThreadPool constructor)\<close>

text \<open>
  The value of a numeric property.  A finite number is its mathematical value (the
  defaults are \<^verbatim>\<open>cpuCount / 2\<close> and \<^verbatim>\<open>cpuCount * 1.5\<close>); the other numbers are
  the two infinities and \<^verbatim>\<open>NaN\<close>.  \<open>Undef\<close> is \<^verbatim>\<open>undefined\<close>: TypeScript lets
  a caller write \<^verbatim>\<open>{ minThreads: undefined }\<close>, and the spread of the constructor
  copies such a property.  The operators convert \<^verbatim>\<open>undefined\<close> to \<^verbatim>\<open>NaN\<close>, and
  every comparison with \<^verbatim>\<open>NaN\<close> is false.
\<close>

datatype jsnum = Fin rat | Infinity | NegInfinity | NaN | Undef

text \<open>\<^verbatim>\<open>a + b\<close>\<close>

fun num_add :: "jsnum \<Rightarrow> jsnum \<Rightarrow> jsnum" where
  "num_add (Fin a) (Fin b) = Fin (a + b)"
| "num_add (Fin a) Infinity = Infinity"
| "num_add Infinity (Fin b) = Infinity"
| "num_add Infinity Infinity = Infinity"
| "num_add (Fin a) NegInfinity = NegInfinity"
| "num_add NegInfinity (Fin b) = NegInfinity"
| "num_add NegInfinity NegInfinity = NegInfinity"
| "num_add _ _ = NaN"

text \<open>\<^verbatim>\<open>a <= b\<close>, which is also \<^verbatim>\<open>b >= a\<close>\<close>

fun num_le :: "jsnum \<Rightarrow> jsnum \<Rightarrow> bool" where
  "num_le (Fin a) (Fin b) = (a \<le> b)"
| "num_le (Fin a) Infinity = True"
| "num_le Infinity Infinity = True"
| "num_le NegInfinity (Fin b) = True"
| "num_le NegInfinity Infinity = True"
| "num_le NegInfinity NegInfinity = True"
| "num_le _ _ = False"

text \<open>\<^verbatim>\<open>a < b\<close>, which is also \<^verbatim>\<open>b > a\<close>\<close>

fun num_lt :: "jsnum \<Rightarrow> jsnum \<Rightarrow> bool" where
  "num_lt (Fin a) (Fin b) = (a < b)"
| "num_lt (Fin a) Infinity = True"
| "num_lt NegInfinity (Fin b) = True"
| "num_lt NegInfinity Infinity = True"
| "num_lt _ _ = False"

text \<open>\<^verbatim>\<open>a ** 2\<close>\<close>

fun num_sq :: "jsnum \<Rightarrow> jsnum" where
  "num_sq (Fin a) = Fin (a\<^sup>2)"
| "num_sq Infinity = Infinity"
| "num_sq NegInfinity = Infinity"
| "num_sq _ = NaN"

datatype maxQueue_option = Auto | Num jsnum

text \<open>
  The caller's options.  \<open>None\<close> is a property that the object does not have.  A thread
  bound or queue bound that is present holds any number or \<^verbatim>\<open>undefined\<close>
  (\<open>Some Undef\<close>).  For \<^verbatim>\<open>filename\<close> \<open>None\<close> also stands for \<^verbatim>\<open>null\<close> and
  \<^verbatim>\<open>undefined\<close>, which the constructor treats alike.  \<^verbatim>\<open>idleTimeout\<close>,
  \<^verbatim>\<open>concurrentTasksPerWorker\<close> and \<^verbatim>\<open>useAtomics\<close> are an integer, a natural number
  and a boolean when present.  The pass-through options
  (\<^verbatim>\<open>resourceLimits\<close>, \<^verbatim>\<open>argv\<close>, \<^verbatim>\<open>execArgv\<close>, \<^verbatim>\<open>env\<close>,
  \<^verbatim>\<open>workerData\<close>) only reach the Worker constructor and are left out.
\<close>

record Options =
  opt_filename :: "string option"
  opt_minThreads :: "jsnum option"
  opt_maxThreads :: "jsnum option"
  opt_idleTimeout :: "int option"
  opt_maxQueue :: "maxQueue_option option"
  opt_concurrentTasksPerWorker :: "nat option"
  opt_useAtomics :: "bool option"

record FilledOptions =
  filename :: "string option"
  minThreads :: jsnum
  maxThreads :: jsnum
  idleTimeout :: int
  maxQueue :: jsnum
  concurrentTasksPerWorker :: nat
  useAtomics :: bool

text \<open>\<^verbatim>\<open>cpuCount\<close> is \<^verbatim>\<open>os.cpus().length\<close>, a parameter of the model; the list of
  CPUs may be empty.\<close>

definition kDefaultOptions :: "nat \<Rightarrow> FilledOptions" where
  "kDefaultOptions cpuCount =
     \<lparr> filename = None,
       minThreads = Fin (max (of_nat cpuCount / 2) 1),
       maxThreads = Fin (of_nat cpuCount * (3 / 2)),
       idleTimeout = 0,
       maxQueue = Infinity,
       concurrentTasksPerWorker = 1,
       useAtomics = True \<rparr>"

text \<open>The collaborators the pool calls: URL conversion and the port's send primitive
  (\<open>Some e\<close> when \<^verbatim>\<open>port.postMessage\<close> throws \<open>e\<close>).  The conversion is
  taken to succeed: a \<^verbatim>\<open>file:\<close> name that \<^verbatim>\<open>new URL\<close> or
  \<^verbatim>\<open>fileURLToPath\<close> refuses makes the caller throw before it has changed anything.\<close>

record RequestMessage =
  rm_task :: jsval
  rm_taskId :: nat
  rm_filename :: string

record env =
  fileURLToPath :: "string \<Rightarrow> string"
  postMessage :: "RequestMessage \<Rightarrow> jsval list option \<Rightarrow> error option"

definition maybeFileURLToPath :: "env \<Rightarrow> string \<Rightarrow> string" where
  "maybeFileURLToPath E name =
     (if take 5 name = ''file:'' then fileURLToPath E name else name)"

text \<open>The checks of the \<^verbatim>\<open>Piscina\<close> constructor, in the source's order.  Each
  check applies to a property that is not \<^verbatim>\<open>undefined\<close>; the \<^verbatim>\<open>typeof\<close>
  tests are discharged by the types of the record.\<close>

definition Piscina_validate :: "Options \<Rightarrow> error option" where
  "Piscina_validate options =
     (if (case opt_minThreads options of
            Some mn \<Rightarrow> mn \<noteq> Undef \<and> num_lt mn (Fin 0) | None \<Rightarrow> False)
      then Some (TypeError ''options.minThreads must be a non-negative integer'')
      else if (case opt_maxThreads options of
                 Some mx \<Rightarrow> mx \<noteq> Undef \<and> num_lt mx (Fin 1) | None \<Rightarrow> False)
      then Some (TypeError ''options.maxThreads must be a positive integer'')
      else if (case (opt_minThreads options, opt_maxThreads options) of
                 (Some mn, Some mx) \<Rightarrow> mn \<noteq> Undef \<and> mx \<noteq> Undef \<and> num_lt mx mn
               | _ \<Rightarrow> False)
      then Some (RangeError ''options.minThreads and options.maxThreads must not conflict'')
      else if (case opt_idleTimeout options of Some i \<Rightarrow> i < 0 | None \<Rightarrow> False)
      then Some (TypeError ''options.idleTimeout must be a non-negative integer'')
      else if (case opt_maxQueue options of
                 Some (Num q) \<Rightarrow> q \<noteq> Undef \<and> num_lt q (Fin 0) | _ \<Rightarrow> False)
      then Some (TypeError ''options.maxQueue must be a non-negative integer'')
      else if (case opt_concurrentTasksPerWorker options of Some c \<Rightarrow> c < 1 | None \<Rightarrow> False)
      then Some (TypeError ''options.concurrentTasksPerWorker must be a positive integer'')
      else None)"

text \<open>\<^verbatim>\<open>{ ...kDefaultOptions, ...options, filename, maxQueue: 0 }\<close>: a property that
  the caller's object has replaces the default, also when it holds \<^verbatim>\<open>undefined\<close>.\<close>

definition merge_options :: "env \<Rightarrow> nat \<Rightarrow> Options \<Rightarrow> FilledOptions" where
  "merge_options E cpuCount options =
     (let d = kDefaultOptions cpuCount in
      \<lparr> filename = (case opt_filename options of
                      Some name \<Rightarrow> if name = [] then None else Some (maybeFileURLToPath E name)
                    | None \<Rightarrow> None),
        minThreads = (case opt_minThreads options of Some v \<Rightarrow> v | None \<Rightarrow> minThreads d),
        maxThreads = (case opt_maxThreads options of Some v \<Rightarrow> v | None \<Rightarrow> maxThreads d),
        idleTimeout = (case opt_idleTimeout options of Some v \<Rightarrow> v | None \<Rightarrow> idleTimeout d),
        maxQueue = Fin 0,
        concurrentTasksPerWorker =
          (case opt_concurrentTasksPerWorker options of
             Some v \<Rightarrow> v | None \<Rightarrow> concurrentTasksPerWorker d),
        useAtomics = (case opt_useAtomics options of Some v \<Rightarrow> v | None \<Rightarrow> useAtomics d) \<rparr>)"

text \<open>The option part of the \<^verbatim>\<open>ThreadPool\<close> constructor: merge, clamp the bounds
  (the tests \<^verbatim>\<open>options.maxThreads !== undefined\<close> and
  \<^verbatim>\<open>options.minThreads !== undefined\<close> fail for an absent property and for one that
  holds \<^verbatim>\<open>undefined\<close>), then assign \<^verbatim>\<open>maxQueue\<close>, where \<^verbatim>\<open>??\<close> replaces
  \<^verbatim>\<open>undefined\<close> by the default.\<close>

definition ThreadPool_options :: "env \<Rightarrow> nat \<Rightarrow> Options \<Rightarrow> FilledOptions" where
  "ThreadPool_options E cpuCount options =
     (let o0 = merge_options E cpuCount options;
          o1 = (case opt_maxThreads options of
                  Some mx \<Rightarrow> if mx \<noteq> Undef \<and> num_le mx (minThreads o0)
                             then o0\<lparr>minThreads := mx\<rparr> else o0
                | None \<Rightarrow> o0);
          o2 = (case opt_minThreads options of
                  Some mn \<Rightarrow> if mn \<noteq> Undef \<and> num_le (maxThreads o1) mn
                             then o1\<lparr>maxThreads := mn\<rparr> else o1
                | None \<Rightarrow> o1)
      in (case opt_maxQueue options of
            Some Auto \<Rightarrow> o2\<lparr>maxQueue := num_sq (maxThreads o2)\<rparr>
          | Some (Num q) \<Rightarrow>
              o2\<lparr>maxQueue := (if q = Undef then maxQueue (kDefaultOptions cpuCount) else q)\<rparr>
          | None \<Rightarrow> o2\<lparr>maxQueue := maxQueue (kDefaultOptions cpuCount)\<rparr>))"


section \<open>Task descriptors, worker handles and the pool state\<close>

text \<open>
  A \<^verbatim>\<open>TaskInfo\<close> is addressed by its \<^verbatim>\<open>taskId\<close> and a \<^verbatim>\<open>WorkerInfo\<close> by the
  number of its creation; the heaps map these addresses to the objects, so that the
  queue, the task maps and the abort listeners share one descriptor.  Timestamps and the
  two histograms are left out: they are written, never read by the scheduler.
\<close>

record TaskInfo =
  task :: jsval
  transferList :: "jsval list option"
  ti_filename :: string
  abortSignal :: "nat option"
  workerInfo :: "nat option"

text \<open>
  \<^verbatim>\<open>taskInfos\<close> is the Map from task id to descriptor, as its keys in insertion
  order; \<open>isReady\<close> is \<^verbatim>\<open>onreadyListeners === null\<close>; \<open>w_idleTimeout\<close> says
  that the field \<^verbatim>\<open>idleTimeout\<close> is not null.
\<close>

record WorkerInfo =
  taskInfos :: "nat list"
  w_idleTimeout :: bool
  isReady :: bool
  sharedBuffer :: "32 word list"

record ResponseMessage =
  rsp_taskId :: nat
  rsp_result :: jsval
  rsp_error :: "error option"

datatype settled = Pending | Resolved jsval | Rejected error

text \<open>What the pool does to its collaborators, in the order it does it.\<close>

datatype effect =
    Callback nat "error option" jsval
  | PromiseReject nat error
  | NewWorker nat
  | Terminate nat
  | PortClose nat
  | PortRef nat
  | PortUnref nat
  | PostMessage nat nat
  | AtomicsAdd nat
  | AtomicsNotify nat
  | SetTimeout nat
  | ClearTimeout nat
  | Emit_error error
  | Emit_drain

text \<open>
  The two Sets of the resource pool are lists in insertion order: an item is added when
  it is a new object or has just been deleted from the other Set, so adding appends, and
  deleting removes the one occurrence.
\<close>

record pool =
  pendingItems :: "nat list"
  readyItems :: "nat list"
  maximumUsage :: nat
  options :: FilledOptions
  taskQueue :: "nat list"
  completed :: nat
  startingUp :: bool
  workerFailsDuringBootstrap :: bool
  taskIdCounter :: nat
  taskHeap :: "nat \<Rightarrow> TaskInfo"
  workerCounter :: nat
  workerHeap :: "nat \<Rightarrow> WorkerInfo"
  promise :: "nat \<Rightarrow> settled"
  effects :: "effect list"

definition kRequestCountField :: nat where
  "kRequestCountField = 0"

text \<open>\<^verbatim>\<open>Atomics.add\<close> on the \<^verbatim>\<open>Int32Array\<close>: the addition wraps.\<close>

definition Atomics_add :: "32 word list \<Rightarrow> nat \<Rightarrow> 32 word \<Rightarrow> 32 word list" where
  "Atomics_add buf i v = (if i < length buf then buf[i := buf ! i + v] else buf)"

definition ThreadTermination :: error where
  "ThreadTermination = Error ''Terminating worker thread''"

definition FilenameNotProvided :: error where
  "FilenameNotProvided = Error ''filename must be provided to runTask() or in options object''"

definition TaskQueueAtLimit :: error where
  "TaskQueueAtLimit = Error ''Task queue is at limit''"

definition NoTaskQueueAvailable :: error where
  "NoTaskQueueAvailable = Error ''No task queue available and all Workers are busy''"

definition emit :: "effect \<Rightarrow> pool \<Rightarrow> pool" where
  "emit e s = s\<lparr>effects := effects s @ [e]\<rparr>"

definition settle :: "settled \<Rightarrow> settled \<Rightarrow> settled" where
  "settle old new = (if old = Pending then new else old)"

text \<open>\<^verbatim>\<open>TaskInfo.done\<close>: run the completion callback of \<^verbatim>\<open>runTask\<close>, which counts
  the completion and settles the promise.\<close>

definition TaskInfo_done :: "nat \<Rightarrow> error option \<Rightarrow> jsval \<Rightarrow> pool \<Rightarrow> pool" where
  "TaskInfo_done t err result s =
     s\<lparr>completed := completed s + 1,
       promise := (promise s)(t := settle (promise s t)
                    (case err of Some e \<Rightarrow> Rejected e | None \<Rightarrow> Resolved result)),
       effects := effects s @ [Callback t err result]\<rparr>"

definition size_workers :: "pool \<Rightarrow> nat" where
  "size_workers s = length (pendingItems s) + length (readyItems s)"

definition update_worker :: "nat \<Rightarrow> (WorkerInfo \<Rightarrow> WorkerInfo) \<Rightarrow> pool \<Rightarrow> pool" where
  "update_worker w f s = s\<lparr>workerHeap := (workerHeap s)(w := f (workerHeap s w))\<rparr>"

definition update_task :: "nat \<Rightarrow> (TaskInfo \<Rightarrow> TaskInfo) \<Rightarrow> pool \<Rightarrow> pool" where
  "update_task t f s = s\<lparr>taskHeap := (taskHeap s)(t := f (taskHeap s t))\<rparr>"

definition clearIdleTimeout :: "nat \<Rightarrow> pool \<Rightarrow> pool" where
  "clearIdleTimeout w s =
     (if w_idleTimeout (workerHeap s w)
      then update_worker w (\<lambda>wi. wi\<lparr>w_idleTimeout := False\<rparr>) (emit (ClearTimeout w) s)
      else s)"

definition destroy :: "nat \<Rightarrow> pool \<Rightarrow> pool" where
  "destroy w s =
     (let s1 = emit (PortClose w) (emit (Terminate w) s);
          s2 = clearIdleTimeout w s1;
          s3 = fold (\<lambda>t. TaskInfo_done t (Some ThreadTermination) VUndefined)
                 (taskInfos (workerHeap s2 w)) s2
      in update_worker w (\<lambda>wi. wi\<lparr>taskInfos := []\<rparr>) s3)"

definition isRunningAbortableTask :: "pool \<Rightarrow> nat \<Rightarrow> bool" where
  "isRunningAbortableTask s w =
     (case taskInfos (workerHeap s w) of
        [t] \<Rightarrow> abortSignal (taskHeap s t) \<noteq> None
      | _ \<Rightarrow> False)"

definition currentUsage :: "pool \<Rightarrow> nat \<Rightarrow> enat" where
  "currentUsage s w =
     (if isRunningAbortableTask s w then \<infinity> else enat (length (taskInfos (workerHeap s w))))"

definition postTask :: "env \<Rightarrow> nat \<Rightarrow> nat \<Rightarrow> pool \<Rightarrow> error + pool" where
  "postTask E w t s =
     (if t \<in> set (taskInfos (workerHeap s w)) then Inl AssertionError
      else
        let ti = taskHeap s t;
            message = \<lparr>rm_task = task ti, rm_taskId = t, rm_filename = ti_filename ti\<rparr>;
            s1 = update_task t (\<lambda>ti. ti\<lparr>task := VNull\<rparr>) s
        in (case postMessage E message (transferList ti) of
              Some err \<Rightarrow> Inr (TaskInfo_done t (Some err) VUndefined s1)
            | None \<Rightarrow>
                let s2 = update_task t (\<lambda>ti. ti\<lparr>workerInfo := Some w\<rparr>) (emit (PostMessage w t) s1);
                    s3 = update_worker w (\<lambda>wi. wi\<lparr>taskInfos := taskInfos wi @ [t]\<rparr>) s2;
                    s4 = clearIdleTimeout w (emit (PortRef w) s3);
                    s5 = update_worker w
                           (\<lambda>wi. wi\<lparr>sharedBuffer :=
                               Atomics_add (sharedBuffer wi) kRequestCountField 1\<rparr>)
                           (emit (AtomicsAdd w) s4)
                in Inr (emit (AtomicsNotify w) s5)))"

fun findAvailable_loop :: "pool \<Rightarrow> nat list \<Rightarrow> enat \<Rightarrow> nat option \<Rightarrow> nat option" where
  "findAvailable_loop s [] minUsage candidate = candidate"
| "findAvailable_loop s (item # items) minUsage candidate =
     (let usage = currentUsage s item in
      if usage = 0 then Some item
      else if usage < minUsage then findAvailable_loop s items usage (Some item)
      else findAvailable_loop s items minUsage candidate)"

definition findAvailable :: "pool \<Rightarrow> nat option" where
  "findAvailable s = findAvailable_loop s (readyItems s) (enat (maximumUsage s)) None"

definition maybeDrain :: "pool \<Rightarrow> pool" where
  "maybeDrain s = (if taskQueue s = [] then emit Emit_drain s else s)"

definition onWorkerAvailable :: "env \<Rightarrow> nat \<Rightarrow> pool \<Rightarrow> error + pool" where
  "onWorkerAvailable E w s =
     (if taskQueue s \<noteq> [] \<and> currentUsage s w < enat (concurrentTasksPerWorker (options s))
      then (case postTask E w (hd (taskQueue s)) (s\<lparr>taskQueue := tl (taskQueue s)\<rparr>) of
              Inl e \<Rightarrow> Inl e
            | Inr s' \<Rightarrow> Inr (maybeDrain s'))
      else if taskInfos (workerHeap s w) = [] \<and>
              num_lt (minThreads (options s)) (Fin (of_nat (size_workers s)))
      then Inr (update_worker w (\<lambda>wi. wi\<lparr>w_idleTimeout := True\<rparr>) (emit (SetTimeout w) s))
      else Inr s)"

text \<open>The only listener of the pool's \<^verbatim>\<open>onAvailable\<close> is \<^verbatim>\<open>_onWorkerAvailable\<close>.\<close>

definition maybeAvailable :: "env \<Rightarrow> nat \<Rightarrow> pool \<Rightarrow> error + pool" where
  "maybeAvailable E w s =
     (if currentUsage s w < enat (maximumUsage s) then onWorkerAvailable E w s else Inr s)"

text \<open>The closure that \<^verbatim>\<open>add\<close> hands to \<^verbatim>\<open>onReady\<close>.\<close>

definition onReady_listener :: "env \<Rightarrow> nat \<Rightarrow> pool \<Rightarrow> error + pool" where
  "onReady_listener E w s =
     (if w \<in> set (pendingItems s)
      then maybeAvailable E w
             (s\<lparr>pendingItems := remove1 w (pendingItems s), readyItems := readyItems s @ [w]\<rparr>)
      else Inr s)"

definition pool_add :: "env \<Rightarrow> nat \<Rightarrow> pool \<Rightarrow> error + pool" where
  "pool_add E w s =
     (let s1 = s\<lparr>pendingItems := pendingItems s @ [w]\<rparr> in
      if isReady (workerHeap s1 w) then onReady_listener E w s1 else Inr s1)"

definition pool_delete :: "nat \<Rightarrow> pool \<Rightarrow> pool" where
  "pool_delete w s =
     s\<lparr>pendingItems := remove1 w (pendingItems s), readyItems := remove1 w (readyItems s)\<rparr>"

text \<open>\<^verbatim>\<open>new Worker\<close>, \<^verbatim>\<open>new WorkerInfo\<close>, marked ready at once while the pool is
  starting up, and the startup message.\<close>

definition WorkerInfo_new :: "pool \<Rightarrow> pool" where
  "WorkerInfo_new s =
     emit (NewWorker (workerCounter s))
       (s\<lparr>workerCounter := workerCounter s + 1,
          workerHeap := (workerHeap s)(workerCounter s :=
            \<lparr>taskInfos = [], w_idleTimeout = False, isReady = startingUp s,
             sharedBuffer = [0, 0]\<rparr>)\<rparr>)"

definition addNewWorker :: "env \<Rightarrow> pool \<Rightarrow> error + pool" where
  "addNewWorker E s =
     (let w = workerCounter s in pool_add E w (WorkerInfo_new s))"

definition removeWorker :: "nat \<Rightarrow> pool \<Rightarrow> pool" where
  "removeWorker w s = pool_delete w (destroy w s)"


text \<open>
  \<^verbatim>\<open>while (this.workers.size < this.options.minThreads) this._addNewWorker()\<close>.
  The loop need not end (\<^verbatim>\<open>minThreads\<close> may be \<^verbatim>\<open>Infinity\<close>): \<open>None\<close> is a
  call that does not return, and so for every function that runs the loop.
\<close>

partial_function (option) ensureMinimumWorkers :: "env \<Rightarrow> pool \<Rightarrow> (error + pool) option" where
  "ensureMinimumWorkers E s =
     (if num_lt (Fin (of_nat (size_workers s))) (minThreads (options s))
      then (case addNewWorker E s of
              Inl e \<Rightarrow> Some (Inl e)
            | Inr s' \<Rightarrow> ensureMinimumWorkers E s')
      else Some (Inr s))"

text \<open>The listener of the worker's \<^verbatim>\<open>message\<close> event for \<^verbatim>\<open>{ready: true}\<close>.  Any
  other message is re-emitted as an error and reaches the error listener below.\<close>

definition markAsReady :: "env \<Rightarrow> nat \<Rightarrow> pool \<Rightarrow> error + pool" where
  "markAsReady E w s =
     (if isReady (workerHeap s w) then Inl AssertionError
      else onReady_listener E w (update_worker w (\<lambda>wi. wi\<lparr>isReady := True\<rparr>) s))"

definition on_ready_message :: "env \<Rightarrow> nat \<Rightarrow> pool \<Rightarrow> error + pool" where
  "on_ready_message E w s =
     (let s1 = (if currentUsage s w = 0 then emit (PortUnref w) s else s) in
      if \<not> isReady (workerHeap s1 w) then markAsReady E w s1 else Inr s1)"

text \<open>The listener of the worker's \<^verbatim>\<open>error\<close> event.\<close>

definition on_worker_error :: "env \<Rightarrow> nat \<Rightarrow> error \<Rightarrow> pool \<Rightarrow> (error + pool) option" where
  "on_worker_error E w err s =
     (let snapshot = taskInfos (workerHeap s w);
          s1 = update_worker w (\<lambda>wi. wi\<lparr>taskInfos := []\<rparr>) s;
          s2 = removeWorker w s1
      in (case (if isReady (workerHeap s2 w) \<and> \<not> workerFailsDuringBootstrap s2
                then ensureMinimumWorkers E s2
                else Some (Inr (s2\<lparr>workerFailsDuringBootstrap := True\<rparr>))) of
            None \<Rightarrow> None
          | Some (Inl e) \<Rightarrow> Some (Inl e)
          | Some (Inr s3) \<Rightarrow>
              if snapshot \<noteq> []
              then Some (Inr (fold (\<lambda>t. TaskInfo_done t (Some err) VNull) snapshot s3))
              else Some (Inr (emit (Emit_error err) s3))))"

text \<open>The abort listener that \<^verbatim>\<open>runTask\<close> installs for the descriptor \<open>t\<close>.\<close>

definition on_abort :: "env \<Rightarrow> nat \<Rightarrow> pool \<Rightarrow> (error + pool) option" where
  "on_abort E t s =
     (let s1 = emit (PromiseReject t AbortError)
                 (s\<lparr>promise := (promise s)(t := settle (promise s t) (Rejected AbortError))\<rparr>)
      in (case workerInfo (taskHeap s1 t) of
            Some w \<Rightarrow> ensureMinimumWorkers E (removeWorker w s1)
          | None \<Rightarrow>
              if t \<notin> set (taskQueue s1) then Some (Inl AssertionError)
              else Some (Inr (s1\<lparr>taskQueue := remove1 t (taskQueue s1)\<rparr>))))"

text \<open>The idle timer's callback.  A timer that was replaced or cleared never fires in the
  source; the model lets the callback run at any time, which only adds behaviours.\<close>

definition on_idle_timeout :: "nat \<Rightarrow> pool \<Rightarrow> error + pool" where
  "on_idle_timeout w s =
     (if taskInfos (workerHeap s w) \<noteq> [] then Inl AssertionError
      else if num_lt (minThreads (options s)) (Fin (of_nat (size_workers s)))
      then Inr (removeWorker w s)
      else Inr s)"

definition pendingCapacity :: "pool \<Rightarrow> nat" where
  "pendingCapacity s = length (pendingItems s) * concurrentTasksPerWorker (options s)"

text \<open>\<^verbatim>\<open>new TaskInfo(...)\<close> together with the new promise whose \<^verbatim>\<open>resolve\<close> and
  \<^verbatim>\<open>reject\<close> the callback holds; the descriptor gets the next task id.\<close>

definition TaskInfo_new ::
  "jsval \<Rightarrow> jsval list option \<Rightarrow> string \<Rightarrow> nat option \<Rightarrow> pool \<Rightarrow> pool" where
  "TaskInfo_new tsk xfer name signal s =
     s\<lparr>taskIdCounter := taskIdCounter s + 1,
       taskHeap := (taskHeap s)(taskIdCounter s :=
         \<lparr>task = tsk, transferList = xfer, ti_filename = name,
          abortSignal = signal, workerInfo = None\<rparr>),
       promise := (promise s)(taskIdCounter s := Pending)\<rparr>"

text \<open>\<^verbatim>\<open>runTask\<close> returns a promise: one that is already rejected, or the promise of
  the descriptor it created.\<close>

datatype returned = Promise_reject error | Promise_of nat

definition runTask ::
  "env \<Rightarrow> jsval \<Rightarrow> jsval list option \<Rightarrow> string option \<Rightarrow> nat option \<Rightarrow> pool
     \<Rightarrow> error + (returned \<times> pool)" where
  "runTask E tsk xfer name signal s =
     (case (case name of None \<Rightarrow> filename (options s) | Some n \<Rightarrow> Some n) of
        None \<Rightarrow> Inr (Promise_reject FilenameNotProvided, s)
      | Some n \<Rightarrow>
          let t = taskIdCounter s;
              s1 = TaskInfo_new tsk xfer (maybeFileURLToPath E n) signal s
          in
          if taskQueue s1 \<noteq> [] then
            let totalCapacity = num_add (maxQueue (options s1)) (Fin (of_nat (pendingCapacity s1)))
            in
            if num_le totalCapacity (Fin (of_nat (length (taskQueue s1)))) then
              if maxQueue (options s1) = Fin 0
              then Inr (Promise_reject NoTaskQueueAvailable, s1)
              else Inr (Promise_reject TaskQueueAtLimit, s1)
            else
              (case (if num_lt (Fin (of_nat (size_workers s1))) (maxThreads (options s1))
                     then addNewWorker E s1 else Inr s1) of
                 Inl e \<Rightarrow> Inl e
               | Inr s2 \<Rightarrow> Inr (Promise_of t, s2\<lparr>taskQueue := taskQueue s2 @ [t]\<rparr>))
          else
            let found = findAvailable s1;
                chosen = (case found of
                            Some w \<Rightarrow> if currentUsage s1 w > 0 \<and> signal \<noteq> None
                                      then None else Some w
                          | None \<Rightarrow> None);
                waitingForNewWorker =
                  ((case chosen of None \<Rightarrow> True | Some w \<Rightarrow> currentUsage s1 w > 0) \<and>
                   num_lt (Fin (of_nat (size_workers s1))) (maxThreads (options s1)))
            in
            (case (if waitingForNewWorker then addNewWorker E s1 else Inr s1) of
               Inl e \<Rightarrow> Inl e
             | Inr s2 \<Rightarrow>
                 (case chosen of
                    None \<Rightarrow>
                      if num_le (maxQueue (options s2)) (Fin 0) \<and> \<not> waitingForNewWorker
                      then Inr (Promise_reject NoTaskQueueAvailable, s2)
                      else Inr (Promise_of t, s2\<lparr>taskQueue := taskQueue s2 @ [t]\<rparr>)
                  | Some w \<Rightarrow>
                      (case postTask E w t s2 of
                         Inl e \<Rightarrow> Inl e
                       | Inr s3 \<Rightarrow> Inr (Promise_of t, maybeDrain s3)))))"


text \<open>The \<^verbatim>\<open>onMessage\<close> closure of a worker, up to its last statement (the sweep).
  The text of the error for an unknown task id is kept without the inspected message.\<close>

definition onMessage :: "env \<Rightarrow> nat \<Rightarrow> ResponseMessage \<Rightarrow> pool \<Rightarrow> error + pool" where
  "onMessage E w message s =
     (let t = rsp_taskId message;
          known = (t \<in> set (taskInfos (workerHeap s w)));
          s1 = update_worker w (\<lambda>wi. wi\<lparr>taskInfos := remove1 t (taskInfos wi)\<rparr>) s
      in (case maybeAvailable E w s1 of
            Inl e \<Rightarrow> Inl e
          | Inr s2 \<Rightarrow>
              if \<not> known
              then Inr (emit (Emit_error (Error ''Unexpected message from Worker'')) s2)
              else Inr (TaskInfo_done t (rsp_error message) (rsp_result message) s2)))"

definition unref_if_idle :: "nat \<Rightarrow> pool \<Rightarrow> pool" where
  "unref_if_idle w s = (if taskInfos (workerHeap s w) = [] then emit (PortUnref w) s else s)"

text \<open>
  \<^verbatim>\<open>_handleResponse\<close> while the latch \<^verbatim>\<open>inProcessPendingMessages\<close> is set: the
  sweep at the end of \<^verbatim>\<open>onMessage\<close> returns at once.  The sweep finds on the port of
  each worker the messages \<open>inbox w\<close> (none when the response counter did not move).
\<close>

definition handleResponse_latched :: "env \<Rightarrow> nat \<Rightarrow> ResponseMessage \<Rightarrow> pool \<Rightarrow> error + pool" where
  "handleResponse_latched E w message s =
     (case onMessage E w message s of
        Inl e \<Rightarrow> Inl e
      | Inr s' \<Rightarrow> Inr (unref_if_idle w s'))"

fun worker_processPendingMessages ::
  "env \<Rightarrow> nat \<Rightarrow> ResponseMessage list \<Rightarrow> pool \<Rightarrow> error + pool" where
  "worker_processPendingMessages E w [] s = Inr s"
| "worker_processPendingMessages E w (m # ms) s =
     (case handleResponse_latched E w m s of
        Inl e \<Rightarrow> Inl e
      | Inr s' \<Rightarrow> worker_processPendingMessages E w ms s')"

fun sweep_workers ::
  "env \<Rightarrow> (nat \<Rightarrow> ResponseMessage list) \<Rightarrow> nat list \<Rightarrow> pool \<Rightarrow> error + pool" where
  "sweep_workers E inbox [] s = Inr s"
| "sweep_workers E inbox (w # ws) s =
     (case worker_processPendingMessages E w (inbox w) s of
        Inl e \<Rightarrow> Inl e
      | Inr s' \<Rightarrow> sweep_workers E inbox ws s')"

definition processPendingMessages ::
  "env \<Rightarrow> (nat \<Rightarrow> ResponseMessage list) \<Rightarrow> pool \<Rightarrow> error + pool" where
  "processPendingMessages E inbox s =
     (if \<not> useAtomics (options s) then Inr s
      else sweep_workers E inbox (pendingItems s @ readyItems s) s)"

definition handleResponse ::
  "env \<Rightarrow> (nat \<Rightarrow> ResponseMessage list) \<Rightarrow> nat \<Rightarrow> ResponseMessage \<Rightarrow> pool \<Rightarrow> error + pool" where
  "handleResponse E inbox w message s =
     (case onMessage E w message s of
        Inl e \<Rightarrow> Inl e
      | Inr s1 \<Rightarrow>
          (case processPendingMessages E inbox s1 of
             Inl e \<Rightarrow> Inl e
           | Inr s2 \<Rightarrow> Inr (unref_if_idle w s2)))"

text \<open>\<^verbatim>\<open>ThreadPool.destroy\<close>, up to waiting for the exit events.\<close>

function fail_queued :: "pool \<Rightarrow> pool" where
  "fail_queued s =
     (if taskQueue s \<noteq> []
      then fail_queued
             (TaskInfo_done (hd (taskQueue s)) (Some (Error ''Terminating worker thread''))
                VUndefined (s\<lparr>taskQueue := tl (taskQueue s)\<rparr>))
      else s)"
  by pat_completeness auto
termination
  by (relation "measure (\<lambda>s. length (taskQueue s))") (auto simp: TaskInfo_done_def)

declare fail_queued.simps [simp del]

function remove_workers :: "pool \<Rightarrow> pool" where
  "remove_workers s =
     (if size_workers s > 0
      then remove_workers (removeWorker (hd (pendingItems s @ readyItems s)) s)
      else s)"
  by pat_completeness auto
termination
proof (relation "measure size_workers")
  show "wf (measure size_workers)" by simp
next
  fix s :: pool
  assume pos: "0 < size_workers s"
  define w where "w = hd (pendingItems s @ readyItems s)"
  have keep: "pendingItems (fold (\<lambda>t. TaskInfo_done t e r) ts s0) = pendingItems s0 \<and>
              readyItems (fold (\<lambda>t. TaskInfo_done t e r) ts s0) = readyItems s0"
    for ts e r and s0 :: pool
    by (induction ts arbitrary: s0) (simp_all add: TaskInfo_done_def)
  have same: "pendingItems (destroy w s) = pendingItems s \<and>
              readyItems (destroy w s) = readyItems s"
    by (simp add: destroy_def Let_def keep update_worker_def clearIdleTimeout_def emit_def)
  have mem: "w \<in> set (pendingItems s) \<or> (pendingItems s = [] \<and> w \<in> set (readyItems s))"
    using pos unfolding w_def size_workers_def
    by (cases "pendingItems s"; cases "readyItems s") auto
  have len: "length (remove1 w xs) \<le> length xs" for xs :: "nat list"
    by (simp add: length_remove1)
  have drop: "length (remove1 w xs) < length xs" if "w \<in> set xs" for xs :: "nat list"
    using that length_pos_if_in_set [OF that] by (simp add: length_remove1)
  have "length (remove1 w (pendingItems s)) + length (remove1 w (readyItems s))
          < length (pendingItems s) + length (readyItems s)"
  proof (cases "w \<in> set (pendingItems s)")
    case True
    from drop [OF True] len [of "readyItems s"] show ?thesis by linarith
  next
    case False
    with mem have "w \<in> set (readyItems s)" by blast
    from drop [OF this] len [of "pendingItems s"] show ?thesis by linarith
  qed
  then have "size_workers (removeWorker w s) < size_workers s"
    by (simp add: removeWorker_def pool_delete_def size_workers_def same)
  then show "(removeWorker (hd (pendingItems s @ readyItems s)) s, s) \<in> measure size_workers"
    by (simp add: w_def)
qed

declare remove_workers.simps [simp del]

definition pool_destroy :: "pool \<Rightarrow> pool" where
  "pool_destroy s = remove_workers (fail_queued s)"

text \<open>Construction.  Addresses that are not allocated hold blank objects.\<close>

definition blank_task :: TaskInfo where
  "blank_task =
     \<lparr>task = VUndefined, transferList = None, ti_filename = [], abortSignal = None,
      workerInfo = None\<rparr>"

definition blank_worker :: WorkerInfo where
  "blank_worker = \<lparr>taskInfos = [], w_idleTimeout = False, isReady = False, sharedBuffer = [0, 0]\<rparr>"

definition initial_pool :: "FilledOptions \<Rightarrow> pool" where
  "initial_pool filled =
     \<lparr>pendingItems = [], readyItems = [],
      maximumUsage = concurrentTasksPerWorker filled,
      options = filled, taskQueue = [], completed = 0, startingUp = True,
      workerFailsDuringBootstrap = False, taskIdCounter = 0,
      taskHeap = (\<lambda>t. blank_task), workerCounter = 0,
      workerHeap = (\<lambda>w. blank_worker), promise = (\<lambda>t. Pending), effects = []\<rparr>"

definition ThreadPool_new :: "env \<Rightarrow> nat \<Rightarrow> Options \<Rightarrow> (error + pool) option" where
  "ThreadPool_new E cpuCount opts =
     (case ensureMinimumWorkers E (initial_pool (ThreadPool_options E cpuCount opts)) of
        None \<Rightarrow> None
      | Some (Inl e) \<Rightarrow> Some (Inl e)
      | Some (Inr s1) \<Rightarrow> Some (Inr (s1\<lparr>startingUp := False\<rparr>)))"

definition Piscina_new :: "env \<Rightarrow> nat \<Rightarrow> Options \<Rightarrow> (error + pool) option" where
  "Piscina_new E cpuCount opts =
     (case Piscina_validate opts of
        Some e \<Rightarrow> Some (Inl e)
      | None \<Rightarrow> ThreadPool_new E cpuCount opts)"

text \<open>The events of the controller thread, each handled to completion (\<open>None\<close> when
  the handler does not return).\<close>

datatype event =
    Submit jsval "jsval list option" "string option" "nat option"
  | Response nat ResponseMessage "nat \<Rightarrow> ResponseMessage list"
  | Ready nat
  | WorkerError nat error
  | Abort nat
  | IdleTimeout nat
  | Destroy

fun step :: "env \<Rightarrow> event \<Rightarrow> pool \<Rightarrow> (error + pool) option" where
  "step E (Submit tsk xfer name signal) s =
     (case runTask E tsk xfer name signal s of
        Inl e \<Rightarrow> Some (Inl e) | Inr (r, s') \<Rightarrow> Some (Inr s'))"
| "step E (Response w message inbox) s = Some (handleResponse E inbox w message s)"
| "step E (Ready w) s = Some (on_ready_message E w s)"
| "step E (WorkerError w err) s = on_worker_error E w err s"
| "step E (Abort t) s = on_abort E t s"
| "step E (IdleTimeout w) s = Some (on_idle_timeout w s)"
| "step E Destroy s = Some (Inr (pool_destroy s))"

text \<open>An abort listener exists for the descriptors created with a signal; the other
  listeners belong to workers that were created.\<close>

fun enabled :: "event \<Rightarrow> pool \<Rightarrow> bool" where
  "enabled (Abort t) s = (t < taskIdCounter s \<and> abortSignal (taskHeap s t) \<noteq> None)"
| "enabled (Response w message inbox) s = (w < workerCounter s)"
| "enabled (Ready w) s = (w < workerCounter s)"
| "enabled (WorkerError w err) s = (w < workerCounter s)"
| "enabled (IdleTimeout w) s = (w < workerCounter s)"
| "enabled ev s = True"

inductive reachable :: "env \<Rightarrow> nat \<Rightarrow> Options \<Rightarrow> pool \<Rightarrow> bool" for E cpuCount opts where
  created: "Piscina_new E cpuCount opts = Some (Inr s) \<Longrightarrow> reachable E cpuCount opts s"
| handled: "reachable E cpuCount opts s \<Longrightarrow> enabled ev s \<Longrightarrow> step E ev s = Some (Inr s')
          \<Longrightarrow> reachable E cpuCount opts s'"

text \<open>How often the completion callback of the descriptor \<open>t\<close> has run.\<close>

fun is_callback :: "nat \<Rightarrow> effect \<Rightarrow> bool" where
  "is_callback t (Callback t' err result) = (t' = t)"
| "is_callback t e = False"

definition callbacks :: "pool \<Rightarrow> nat \<Rightarrow> nat" where
  "callbacks s t = length (filter (is_callback t) (effects s))"

text \<open>Handling a list of events in order, from a given state; an event without a
  listener cannot occur.\<close>

fun run :: "env \<Rightarrow> event list \<Rightarrow> pool \<Rightarrow> (error + pool) option" where
  "run E [] s = Some (Inr s)"
| "run E (ev # evs) s =
     (if enabled ev s
      then (case step E ev s of
              None \<Rightarrow> None
            | Some (Inl e) \<Rightarrow> Some (Inl e)
            | Some (Inr s') \<Rightarrow> run E evs s')
      else Some (Inl (Error ''no listener for this event'')))"

section \<open>Predicates used in the proofs\<close>

definition unchanged_pool :: "pool \<Rightarrow> pool \<Rightarrow> bool" where
  "unchanged_pool s s' \<longleftrightarrow>
     options s' = options s \<and> maximumUsage s' = maximumUsage s \<and> startingUp s' = startingUp s \<and>
     pendingItems s' = pendingItems s \<and> readyItems s' = readyItems s \<and>
     workerCounter s' = workerCounter s \<and>
     workerFailsDuringBootstrap s' = workerFailsDuringBootstrap s"

definition same_static :: "pool \<Rightarrow> pool \<Rightarrow> bool" where
  "same_static s s' \<longleftrightarrow>
     options s' = options s \<and> maximumUsage s' = maximumUsage s \<and> startingUp s' = startingUp s"

definition pool_wf :: "pool \<Rightarrow> bool" where
  "pool_wf s \<longleftrightarrow>
     distinct (pendingItems s @ readyItems s) \<and>
     (\<forall>w \<in> set (pendingItems s @ readyItems s). w < workerCounter s)"

definition pool_ok :: "env \<Rightarrow> nat \<Rightarrow> Options \<Rightarrow> pool \<Rightarrow> bool" where
  "pool_ok E cpuCount opts s \<longleftrightarrow>
     pool_wf s \<and> \<not> startingUp s \<and> options s = ThreadPool_options E cpuCount opts \<and>
     maximumUsage s = concurrentTasksPerWorker (options s) \<and>
     minThreads (options s) \<noteq> Infinity"

text \<open>How many passes the loop of \<^verbatim>\<open>_ensureMinimumWorkers\<close> makes from \<open>k\<close>
  workers when it ends: \<open>k < minThreads\<close> is false at once unless \<^verbatim>\<open>minThreads\<close>
  is a finite number above \<open>k\<close>.\<close>

fun missing :: "jsnum \<Rightarrow> nat \<Rightarrow> nat" where
  "missing (Fin m) k = nat \<lceil>m\<rceil> - k"
| "missing b k = 0"

text \<open>The pool after \<open>n\<close> workers were added outside the constructor: they are pending.\<close>

definition spawn :: "nat \<Rightarrow> pool \<Rightarrow> pool" where
  "spawn n s =
     s\<lparr>pendingItems := pendingItems s @ [workerCounter s ..< workerCounter s + n],
       workerCounter := workerCounter s + n,
       workerHeap := (\<lambda>w. if workerCounter s \<le> w \<and> w < workerCounter s + n
                          then \<lparr>taskInfos = [], w_idleTimeout = False, isReady = False,
                                sharedBuffer = [0, 0]\<rparr>
                          else workerHeap s w),
       effects := effects s @ map NewWorker [workerCounter s ..< workerCounter s + n]\<rparr>"

text \<open>
  Who holds a descriptor: the queue, or the task map of a worker.  The invariant of the
  scheduler, over the queue \<open>Q\<close>, the task maps \<open>T\<close>, the number of callback runs
  \<open>C\<close> and the next task id \<open>N\<close>; \<open>H\<close> are the descriptors a handler has
  taken out of a container and not yet completed or put back.
\<close>

definition task_maps :: "pool \<Rightarrow> nat \<Rightarrow> nat list" where
  "task_maps s w = taskInfos (workerHeap s w)"

definition ainv ::
  "nat set \<Rightarrow> nat list \<Rightarrow> (nat \<Rightarrow> nat list) \<Rightarrow> (nat \<Rightarrow> nat) \<Rightarrow> nat \<Rightarrow> bool" where
  "ainv H Q T C N \<longleftrightarrow>
     distinct Q \<and> (\<forall>w. distinct (T w)) \<and>
     (\<forall>w w' t. t \<in> set (T w) \<and> t \<in> set (T w') \<longrightarrow> w = w') \<and>
     (\<forall>w t. t \<in> set (T w) \<longrightarrow> t \<notin> set Q \<and> t \<notin> H) \<and>
     (\<forall>t. t \<in> set Q \<longrightarrow> t \<notin> H) \<and>
     (\<forall>w t. t \<in> set (T w) \<longrightarrow> C t = 0 \<and> t < N) \<and>
     (\<forall>t. t \<in> set Q \<or> t \<in> H \<longrightarrow> C t = 0 \<and> t < N) \<and>
     (\<forall>t. C t \<le> 1) \<and>
     (\<forall>t. N \<le> t \<longrightarrow> C t = 0)"

definition task_inv :: "nat set \<Rightarrow> pool \<Rightarrow> bool" where
  "task_inv H s \<longleftrightarrow> ainv H (taskQueue s) (task_maps s) (callbacks s) (taskIdCounter s)"

text \<open>Effects are only ever appended.\<close>

definition extends :: "pool \<Rightarrow> pool \<Rightarrow> bool" where
  "extends s s' \<longleftrightarrow> (\<exists>es. effects s' = effects s @ es)"

definition same_obs :: "pool \<Rightarrow> pool \<Rightarrow> bool" where
  "same_obs s s' \<longleftrightarrow>
     taskQueue s' = taskQueue s \<and> task_maps s' = task_maps s \<and>
     callbacks s' = callbacks s \<and> taskIdCounter s' = taskIdCounter s"

section \<open>Sample inputs\<close>

definition pool_of :: "(error + pool) option \<Rightarrow> pool" where
  "pool_of r = (case r of Some (Inr s) \<Rightarrow> s | _ \<Rightarrow> initial_pool (kDefaultOptions 1))"

definition E0 :: env where
  "E0 = \<lparr>fileURLToPath = (\<lambda>name. name), postMessage = (\<lambda>m xfer. None)\<rparr>"

definition no_options :: Options where
  "no_options =
     \<lparr>opt_filename = Some ''worker.js'', opt_minThreads = None, opt_maxThreads = None,
      opt_idleTimeout = None, opt_maxQueue = None, opt_concurrentTasksPerWorker = None,
      opt_useAtomics = None\<rparr>"

definition opts_auto :: Options where
  "opts_auto = no_options\<lparr>opt_minThreads := Some (Fin 1), opt_maxThreads := Some (Fin 4),
     opt_maxQueue := Some Auto\<rparr>"


definition sample_obj :: jsobj where
  "sample_obj = Obj [(KStr ''transferable'', Prop (VStr []) True True True)] None True"

text \<open>\<^verbatim>\<open>Object.freeze({ transferable: '' })\<close>\<close>

definition frozen_obj :: jsobj where
  "frozen_obj = Obj [(KStr ''transferable'', Prop (VStr []) True False False)] None False"

text \<open>An object with its own \<^verbatim>\<open>transferable\<close> property, created with
  \<^verbatim>\<open>Object.create(parent)\<close> from a parent to which \<^verbatim>\<open>markMovable\<close> was applied.\<close>

definition marked_parent :: jsobj where
  "marked_parent =
     Obj [(KStr ''transferable'', Prop (VStr []) True True True),
          (kMovable, Prop (VBool True) False False False)] None True"

definition child_obj :: jsobj where
  "child_obj =
     Obj [(KStr ''transferable'', Prop (VStr []) True True True)] (Some marked_parent) True"




definition E_fail :: env where
  "E_fail = \<lparr>fileURLToPath = (\<lambda>name. name),
     postMessage = (\<lambda>m xfer. Some (Error ''could not be cloned''))\<rparr>"

definition pool_auto :: pool where
  "pool_auto = pool_of (Piscina_new E0 2 opts_auto)"

definition opts_single :: Options where
  "opts_single = no_options\<lparr>opt_minThreads := Some (Fin 1), opt_maxThreads := Some (Fin 1),
     opt_maxQueue := Some (Num (Fin 1))\<rparr>"

definition pool_single :: pool where
  "pool_single = pool_of (Piscina_new E0 2 opts_single)"

text \<open>One worker, one task running on it and one task waiting.\<close>

definition pool_waiting :: pool where
  "pool_waiting =
     pool_of (run E0 [Submit (VNum 1) None None None, Submit (VNum 2) None None None] pool_single)"

text \<open>One worker and one task running on it.\<close>

definition pool_running :: pool where
  "pool_running = pool_of (run E0 [Submit (VNum 1) None None None] pool_single)"

text \<open>One worker, an abortable task running on it and an abortable task waiting.\<close>

definition pool_abortable :: pool where
  "pool_abortable =
     pool_of (run E0 [Submit (VNum 1) None None (Some 7), Submit (VNum 2) None None (Some 8)]
       pool_single)"

text \<open>The same pool after the waiting task was aborted and the pool destroyed.\<close>

definition pool_aborted :: pool where
  "pool_aborted = pool_of (run E0 [Abort 1, Destroy] pool_abortable)"

definition response_0 :: ResponseMessage where
  "response_0 = \<lparr>rsp_taskId = 0, rsp_result = VNum 10, rsp_error = None\<rparr>"

text \<open>One worker that may run two tasks at a time: two plain tasks are dispatched to it, an
  abortable task has to wait, and then the first task's response arrives.\<close>

definition opts_shared :: Options where
  "opts_shared = no_options\<lparr>opt_minThreads := Some (Fin 1), opt_maxThreads := Some (Fin 1),
     opt_concurrentTasksPerWorker := Some 2\<rparr>"

definition pool_two :: pool where
  "pool_two = pool_of (Piscina_new E0 2 opts_shared)"

text \<open>The same pool while it runs one plain task.\<close>

definition pool_busy :: pool where
  "pool_busy = pool_of (run E0 [Submit (VNum 1) None None None] pool_two)"

definition pool_shared :: pool where
  "pool_shared =
     pool_of (run E0
       [Submit (VNum 1) None None None, Submit (VNum 2) None None None,
        Submit (VNum 3) None None (Some 7), Response 0 response_0 (\<lambda>w. [])] pool_two)"

section \<open>Properties\<close>

subsection \<open>The movable marker\<close>

lemma has_property_append:
  "has_property k ob \<Longrightarrow> has_property k (Obj (own ob @ [(k', p)]) (proto ob) ex)"
  by (cases ob) (auto simp: map_add_def split: option.splits)

lemma unmarked_get: "unmarked ob \<Longrightarrow> get_property kMovable ob = VUndefined"
  by (induction ob rule: unmarked.induct) (auto split: option.splits)

text \<open>
  Claim C10, as amended.  \<^verbatim>\<open>isMovable\<close> holds only of values of which
  \<^verbatim>\<open>isTransferable\<close> holds, so it is false for null, undefined and whatever is not an
  object.  An object with a \<^verbatim>\<open>transferable\<close> property that carries no marker, neither
  itself nor an object on its prototype chain, is not movable.  If it is extensible,
  \<^verbatim>\<open>markMovable\<close> mutates it in place, defining the marker as a non-enumerable
  property with value true, after which it is movable; if it is not extensible,
  \<^verbatim>\<open>markMovable\<close> throws a \<^verbatim>\<open>TypeError\<close> and the object stays as it was, not
  movable.
\<close>

theorem movable_iff_marked:
  "(isMovable v \<longrightarrow> isTransferable v) \<and>
   \<not> isMovable VNull \<and> \<not> isMovable VUndefined \<and>
   (typeof v \<noteq> ''object'' \<longrightarrow> \<not> isMovable v) \<and>
   (has_property (KStr ''transferable'') ob \<and> unmarked ob \<longrightarrow>
      \<not> isMovable (VObj ob) \<and>
      (extensible ob \<longrightarrow>
         markMovable (VObj ob) =
           Inr (VObj (Obj (own ob @ [(kMovable, Prop (VBool True) False False False)])
                          (proto ob) (extensible ob))) \<and>
         isMovable (VObj (Obj (own ob @ [(kMovable, Prop (VBool True) False False False)])
                          (proto ob) (extensible ob)))) \<and>
      (\<not> extensible ob \<longrightarrow>
         markMovable (VObj ob) =
           Inl (TypeError ''Cannot define property, object is not extensible'')))"
proof -
  have a: "isMovable v \<longrightarrow> isTransferable v" by (simp add: isMovable_def)
  have b: "\<not> isMovable VNull" "\<not> isMovable VUndefined"
    by (simp_all add: isMovable_def isTransferable_def not_nullish_def)
  have c: "typeof v \<noteq> ''object'' \<longrightarrow> \<not> isMovable v"
    by (simp add: isMovable_def isTransferable_def)
  have d: "\<not> isMovable (VObj ob)" if "unmarked ob"
    using unmarked_get [OF that] by (simp add: isMovable_def)
  have own_none: "map_of (own ob) kMovable = None" if "unmarked ob"
    using that by (cases ob) simp
  have e: "markMovable (VObj ob) =
           Inr (VObj (Obj (own ob @ [(kMovable, Prop (VBool True) False False False)])
                          (proto ob) (extensible ob)))"
    if "unmarked ob" "extensible ob"
    using that own_none [OF that(1)] by (simp add: markMovable_def defineProperty_def)
  have f: "isMovable (VObj (Obj (own ob @ [(kMovable, Prop (VBool True) False False False)])
                          (proto ob) (extensible ob)))"
    if "unmarked ob" "has_property (KStr ''transferable'') ob"
    using has_property_append [OF that(2), of kMovable _ "extensible ob"] own_none [OF that(1)]
    by (simp add: isMovable_def isTransferable_def not_nullish_def map_add_def)
  have g: "markMovable (VObj ob) =
             Inl (TypeError ''Cannot define property, object is not extensible'')"
    if "unmarked ob" "\<not> extensible ob"
    using that own_none [OF that(1)] by (simp add: markMovable_def defineProperty_def)
  from a b c d e f g show ?thesis by blast
qed

theorem movable_iff_marked_witness:
  "has_property (KStr ''transferable'') sample_obj \<and> unmarked sample_obj \<and> extensible sample_obj \<and>
   isTransferable (VObj sample_obj) \<and> \<not> isMovable (VObj sample_obj) \<and>
   markMovable (VObj sample_obj) =
     Inr (VObj (Obj [(KStr ''transferable'', Prop (VStr []) True True True),
                     (kMovable, Prop (VBool True) False False False)] None True)) \<and>
   isMovable (VObj (Obj [(KStr ''transferable'', Prop (VStr []) True True True),
                     (kMovable, Prop (VBool True) False False False)] None True))"
  using movable_iff_marked [of "VObj sample_obj" sample_obj]
  by (simp add: sample_obj_def kMovable_def isTransferable_def not_nullish_def)

text \<open>
  Claim C10 as stated fails on two objects that have a \<^verbatim>\<open>transferable\<close>
  property.  On a frozen object \<^verbatim>\<open>markMovable\<close> throws, so the object is not movable
  afterwards.  An object that inherits from an object to which \<^verbatim>\<open>markMovable\<close> was
  applied has no marker of its own and is movable before \<^verbatim>\<open>markMovable\<close> is applied
  to it.
\<close>

theorem movable_marker_counterexample:
  "has_property (KStr ''transferable'') frozen_obj \<and>
   \<not> isMovable (VObj frozen_obj) \<and>
   markMovable (VObj frozen_obj) =
     Inl (TypeError ''Cannot define property, object is not extensible'') \<and>
   has_property (KStr ''transferable'') child_obj \<and>
   map_of (own child_obj) kMovable = None \<and>
   isMovable (VObj child_obj)"
  by (simp add: frozen_obj_def child_obj_def marked_parent_def kMovable_def isMovable_def
      isTransferable_def not_nullish_def markMovable_def defineProperty_def)

subsection \<open>Numbers\<close>




lemma num_le_not_a_number [simp]:
  "\<not> num_le a NaN" "\<not> num_le a Undef"
  by (cases a; simp)+

lemma not_a_number_num_le [simp]:
  "\<not> num_le NaN b" "\<not> num_le Undef b"
  by (cases b; simp)+

lemma missing_zero:
  "\<not> num_lt (Fin (of_nat k)) b \<Longrightarrow> missing b k = 0"
  by (cases b) (simp_all, linarith)

lemma missing_Suc:
  "num_lt (Fin (of_nat k)) b \<Longrightarrow> b \<noteq> Infinity \<Longrightarrow> missing b k = Suc (missing b (Suc k))"
  by (cases b) (simp_all, linarith)

subsection \<open>Construction and option normalisation\<close>

lemmas pool_defs = addNewWorker_def WorkerInfo_new_def TaskInfo_new_def pool_add_def onReady_listener_def maybeAvailable_def
  onWorkerAvailable_def postTask_def TaskInfo_done_def clearIdleTimeout_def maybeDrain_def
  emit_def update_worker_def update_task_def

lemma addNewWorker_total: "\<exists>s'. addNewWorker E s = Inr s'"
  by (auto simp: pool_defs Let_def split: option.splits)

lemma addNewWorker_static:
  "addNewWorker E s = Inr s' \<Longrightarrow>
     options s' = options s \<and> maximumUsage s' = maximumUsage s \<and> startingUp s' = startingUp s \<and>
     workerFailsDuringBootstrap s' = workerFailsDuringBootstrap s \<and>
     taskIdCounter s' = taskIdCounter s \<and> size_workers s' = Suc (size_workers s)"
  by (auto simp: pool_defs size_workers_def Let_def length_remove1
      split: if_splits sum.splits option.splits)

text \<open>Induction over the passes of the loop of \<^verbatim>\<open>_ensureMinimumWorkers\<close>, for a call
  that returns.\<close>

lemma ensureMinimumWorkers_induct [consumes 1, case_names stop add]:
  assumes run: "ensureMinimumWorkers E s = Some r"
    and stop: "\<And>E s. \<not> num_lt (Fin (of_nat (size_workers s))) (minThreads (options s))
                 \<Longrightarrow> P E s (Inr s)"
    and add: "\<And>E s s1 r. num_lt (Fin (of_nat (size_workers s))) (minThreads (options s))
                 \<Longrightarrow> addNewWorker E s = Inr s1 \<Longrightarrow> P E s1 r \<Longrightarrow> P E s r"
  shows "P E s r"
proof (rule ensureMinimumWorkers.raw_induct [where P = P, OF _ run])
  fix f :: "env \<Rightarrow> pool \<Rightarrow> (error + pool) option" and E s r
  assume IH: "\<And>E s r. f E s = Some r \<Longrightarrow> P E s r"
    and body: "(if num_lt (Fin (of_nat (size_workers s))) (minThreads (options s))
                then case addNewWorker E s of Inl e \<Rightarrow> Some (Inl e) | Inr s' \<Rightarrow> f E s'
                else Some (Inr s)) = Some r"
  show "P E s r"
  proof (cases "num_lt (Fin (of_nat (size_workers s))) (minThreads (options s))")
    case True
    obtain s1 where s1: "addNewWorker E s = Inr s1" using addNewWorker_total by blast
    with body True have "f E s1 = Some r" by simp
    from add [OF True s1 IH [OF this]] show ?thesis .
  next
    case False
    with body have "r = Inr s" by simp
    with stop [OF False] show ?thesis by simp
  qed
qed

lemma ensureMinimumWorkers_static:
  "ensureMinimumWorkers E s = Some r \<Longrightarrow>
     \<exists>s'. r = Inr s' \<and>
     options s' = options s \<and> maximumUsage s' = maximumUsage s \<and> startingUp s' = startingUp s \<and>
     workerFailsDuringBootstrap s' = workerFailsDuringBootstrap s \<and>
     taskIdCounter s' = taskIdCounter s \<and>
     \<not> num_lt (Fin (of_nat (size_workers s'))) (minThreads (options s'))"
proof (induction rule: ensureMinimumWorkers_induct)
  case (stop E s)
  then show ?case by simp
next
  case (add E s s1 r)
  from add(3) addNewWorker_static [OF add(2)] show ?case by auto
qed

text \<open>The loop returns unless \<^verbatim>\<open>minThreads\<close> is \<^verbatim>\<open>Infinity\<close>, and then it does
  not.\<close>

lemma ensureMinimumWorkers_returns:
  "minThreads (options s) \<noteq> Infinity \<Longrightarrow> \<exists>s'. ensureMinimumWorkers E s = Some (Inr s')"
proof (induction "missing (minThreads (options s)) (size_workers s)" arbitrary: s)
  case 0
  show ?case
  proof (cases "num_lt (Fin (of_nat (size_workers s))) (minThreads (options s))")
    case True
    from missing_Suc [OF True "0.prems"] "0.hyps" show ?thesis by simp
  next
    case False
    then show ?thesis by (subst ensureMinimumWorkers.simps) simp
  qed
next
  case (Suc n)
  show ?case
  proof (cases "num_lt (Fin (of_nat (size_workers s))) (minThreads (options s))")
    case True
    obtain s1 where s1: "addNewWorker E s = Inr s1" using addNewWorker_total by blast
    note st = addNewWorker_static [OF s1]
    from missing_Suc [OF True Suc.prems] Suc.hyps(2) st
    have "n = missing (minThreads (options s1)) (size_workers s1)" by simp
    from Suc.hyps(1) [OF this] Suc.prems st
    obtain s' where "ensureMinimumWorkers E s1 = Some (Inr s')" by auto
    with True s1 show ?thesis by (subst ensureMinimumWorkers.simps) simp
  next
    case False
    then show ?thesis by (subst ensureMinimumWorkers.simps) simp
  qed
qed

lemma ensureMinimumWorkers_diverges:
  "minThreads (options s) = Infinity \<Longrightarrow> ensureMinimumWorkers E s = None"
proof (rule ccontr)
  assume inf: "minThreads (options s) = Infinity" and "ensureMinimumWorkers E s \<noteq> None"
  then obtain r where "ensureMinimumWorkers E s = Some r" by auto
  from ensureMinimumWorkers_static [OF this] inf show False by auto
qed

lemma ThreadPool_new_options:
  "ThreadPool_new E cpuCount opts = Some (Inr s) \<Longrightarrow>
     options s = ThreadPool_options E cpuCount opts \<and>
     minThreads (ThreadPool_options E cpuCount opts) \<noteq> Infinity"
  by (auto simp: ThreadPool_new_def initial_pool_def split: option.splits sum.splits
      dest!: ensureMinimumWorkers_static)

lemma Piscina_new_options:
  "Piscina_new E cpuCount opts = Some (Inr s) \<Longrightarrow>
     Piscina_validate opts = None \<and> options s = ThreadPool_options E cpuCount opts \<and>
     minThreads (options s) \<noteq> Infinity"
  by (auto simp: Piscina_new_def split: option.splits dest: ThreadPool_new_options)



lemma ThreadPool_options_bounds:
  "minThreads (ThreadPool_options E cpuCount opts) =
        (case opt_maxThreads opts of
           Some mx \<Rightarrow> if mx \<noteq> Undef \<and> num_le mx (minThreads (merge_options E cpuCount opts))
                      then mx else minThreads (merge_options E cpuCount opts)
         | None \<Rightarrow> minThreads (merge_options E cpuCount opts))"
  "maxThreads (ThreadPool_options E cpuCount opts) =
        (case opt_minThreads opts of
           Some mn \<Rightarrow> if mn \<noteq> Undef \<and> num_le (maxThreads (merge_options E cpuCount opts)) mn
                      then mn else maxThreads (merge_options E cpuCount opts)
         | None \<Rightarrow> maxThreads (merge_options E cpuCount opts))"
  by (simp_all add: ThreadPool_options_def Let_def
      split: option.splits maxQueue_option.splits)

lemma merge_options_bounds:
  "minThreads (merge_options E cpuCount opts) =
        (case opt_minThreads opts of Some v \<Rightarrow> v | None \<Rightarrow> minThreads (kDefaultOptions cpuCount))"
  "maxThreads (merge_options E cpuCount opts) =
        (case opt_maxThreads opts of Some v \<Rightarrow> v | None \<Rightarrow> maxThreads (kDefaultOptions cpuCount))"
  by (simp_all add: merge_options_def Let_def split: option.splits)

lemma validate_bounds:
  assumes "Piscina_validate opts = None"
  shows "opt_minThreads opts = Some mn \<Longrightarrow> mn \<noteq> Undef \<Longrightarrow> \<not> num_lt mn (Fin 0)"
    and "opt_maxThreads opts = Some mx \<Longrightarrow> mx \<noteq> Undef \<Longrightarrow> \<not> num_lt mx (Fin 1)"
    and "opt_minThreads opts = Some mn \<Longrightarrow> opt_maxThreads opts = Some mx \<Longrightarrow>
           mn \<noteq> Undef \<Longrightarrow> mx \<noteq> Undef \<Longrightarrow> \<not> num_lt mx mn"
  using assms unfolding Piscina_validate_def by (simp_all split: if_splits)

text \<open>The constructor returns unless the caller asks for infinitely many threads.\<close>

lemma ThreadPool_options_Infinity:
  "Piscina_validate opts = None \<Longrightarrow>
     minThreads (ThreadPool_options E cpuCount opts) = Infinity \<longleftrightarrow>
       opt_minThreads opts = Some Infinity"
proof -
  assume v: "Piscina_validate opts = None"
  note vb = validate_bounds [OF v]
  show ?thesis
  proof (cases "opt_minThreads opts")
    case None
    then show ?thesis
      unfolding ThreadPool_options_bounds merge_options_bounds
      by (auto simp: kDefaultOptions_def split: option.splits)
  next
    case (Some mn)
    note mn = Some
    show ?thesis
    proof (cases "opt_maxThreads opts")
      case None
      with mn show ?thesis
        unfolding ThreadPool_options_bounds merge_options_bounds by simp
    next
      case (Some mx)
      from vb(2) [OF Some] vb(3) [OF mn Some] mn Some show ?thesis
        unfolding ThreadPool_options_bounds merge_options_bounds
        by (cases mn; cases mx) auto
    qed
  qed
qed

lemma Piscina_new_diverges:
  "Piscina_new E cpuCount opts = None \<longleftrightarrow>
     Piscina_validate opts = None \<and> opt_minThreads opts = Some Infinity"
proof (cases "Piscina_validate opts")
  case (Some e)
  then show ?thesis by (simp add: Piscina_new_def)
next
  case None
  let ?s0 = "initial_pool (ThreadPool_options E cpuCount opts)"
  have o: "options ?s0 = ThreadPool_options E cpuCount opts" by (simp add: initial_pool_def)
  have "ensureMinimumWorkers E ?s0 = None \<longleftrightarrow>
          minThreads (ThreadPool_options E cpuCount opts) = Infinity"
  proof (cases "minThreads (ThreadPool_options E cpuCount opts) = Infinity")
    case True
    with ensureMinimumWorkers_diverges [of ?s0 E] o show ?thesis by simp
  next
    case False
    with ensureMinimumWorkers_returns [of ?s0 E] o
    obtain s' where "ensureMinimumWorkers E ?s0 = Some (Inr s')" by auto
    with False show ?thesis by simp
  qed
  moreover have "ThreadPool_new E cpuCount opts = None \<longleftrightarrow> ensureMinimumWorkers E ?s0 = None"
    by (simp add: ThreadPool_new_def split: option.splits sum.splits)
  ultimately show ?thesis
    using None ThreadPool_options_Infinity [OF None, of E cpuCount]
    by (simp add: Piscina_new_def)
qed






lemmas eval_defs = Piscina_new_def Piscina_validate_def ThreadPool_new_def ThreadPool_options_def
  merge_options_def kDefaultOptions_def initial_pool_def ensureMinimumWorkers.simps
  size_workers_def pool_defs E0_def maybeFileURLToPath_def Let_def currentUsage_def
  isRunningAbortableTask_def pool_of_def no_options_def




subsection \<open>What the operations leave unchanged; the two Sets of the pool\<close>

lemma unchanged_pool_refl [simp]: "unchanged_pool s s"
  by (simp add: unchanged_pool_def)

lemma unchanged_pool_trans: "unchanged_pool s s1 \<Longrightarrow> unchanged_pool s1 s2 \<Longrightarrow> unchanged_pool s s2"
  by (simp add: unchanged_pool_def)

lemma same_static_refl [simp]: "same_static s s"
  by (simp add: same_static_def)

lemma same_static_trans: "same_static s s1 \<Longrightarrow> same_static s1 s2 \<Longrightarrow> same_static s s2"
  by (simp add: same_static_def)

lemma unchanged_static: "unchanged_pool s s' \<Longrightarrow> same_static s s'"
  by (simp add: unchanged_pool_def same_static_def)

lemma unchanged_done [simp]: "unchanged_pool s (TaskInfo_done t e r s)"
  by (simp add: unchanged_pool_def TaskInfo_done_def)

lemma unchanged_fold_done:
  "unchanged_pool s (fold (\<lambda>t. TaskInfo_done t e r) ts s)"
proof (induction ts arbitrary: s)
  case Nil
  show ?case by simp
next
  case (Cons t ts)
  from unchanged_pool_trans [OF unchanged_done Cons] show ?case by simp
qed

lemma unchanged_emit [simp]: "unchanged_pool s (emit e s)"
  by (simp add: unchanged_pool_def emit_def)

lemma unchanged_update_worker [simp]: "unchanged_pool s (update_worker w f s)"
  by (simp add: unchanged_pool_def update_worker_def)

lemma unchanged_update_task [simp]: "unchanged_pool s (update_task t f s)"
  by (simp add: unchanged_pool_def update_task_def)

lemma unchanged_clearIdleTimeout [simp]: "unchanged_pool s (clearIdleTimeout w s)"
  by (simp add: unchanged_pool_def clearIdleTimeout_def update_worker_def emit_def)

lemma unchanged_maybeDrain [simp]: "unchanged_pool s (maybeDrain s)"
  by (simp add: maybeDrain_def)

lemma unchanged_destroy [simp]: "unchanged_pool s (destroy w s)"
  unfolding destroy_def Let_def
  by (intro unchanged_pool_trans [OF _ unchanged_update_worker]
        unchanged_pool_trans [OF _ unchanged_fold_done]
        unchanged_pool_trans [OF _ unchanged_clearIdleTimeout]
        unchanged_pool_trans [OF _ unchanged_emit]) simp

lemma unchanged_postTask: "postTask E w t s = Inr s' \<Longrightarrow> unchanged_pool s s'"
  by (auto simp: postTask_def Let_def unchanged_pool_def TaskInfo_done_def clearIdleTimeout_def
        update_worker_def update_task_def emit_def split: if_splits option.splits)

lemma unchanged_queue [simp]: "unchanged_pool s (s\<lparr>taskQueue := q\<rparr>)"
  by (simp add: unchanged_pool_def)

lemma unchanged_arm [simp]:
  "unchanged_pool s (update_worker w f (emit e s))"
  by (rule unchanged_pool_trans [OF unchanged_emit unchanged_update_worker])

lemma unchanged_onWorkerAvailable: "onWorkerAvailable E w s = Inr s' \<Longrightarrow> unchanged_pool s s'"
  unfolding onWorkerAvailable_def
  by (auto split: if_splits sum.splits dest!: unchanged_postTask
      intro: unchanged_pool_trans [OF _ unchanged_maybeDrain] unchanged_pool_trans [OF unchanged_queue])

lemma unchanged_maybeAvailable: "maybeAvailable E w s = Inr s' \<Longrightarrow> unchanged_pool s s'"
  by (auto simp: maybeAvailable_def split: if_splits dest: unchanged_onWorkerAvailable)

lemma unchanged_onMessage: "onMessage E w m s = Inr s' \<Longrightarrow> unchanged_pool s s'"
  unfolding onMessage_def Let_def
  by (auto split: if_splits sum.splits dest!: unchanged_maybeAvailable
      intro: unchanged_pool_trans [OF unchanged_update_worker]
        unchanged_pool_trans [OF _ unchanged_done] unchanged_pool_trans [OF _ unchanged_emit])

lemma unchanged_unref [simp]: "unchanged_pool s (unref_if_idle w s)"
  by (simp add: unref_if_idle_def)

lemma unchanged_handleResponse_latched:
  "handleResponse_latched E w m s = Inr s' \<Longrightarrow> unchanged_pool s s'"
  by (auto simp: handleResponse_latched_def split: sum.splits dest!: unchanged_onMessage
      intro: unchanged_pool_trans [OF _ unchanged_unref])

lemma unchanged_worker_processPendingMessages:
  "worker_processPendingMessages E w ms s = Inr s' \<Longrightarrow> unchanged_pool s s'"
proof (induction ms arbitrary: s)
  case Nil
  then show ?case by simp
next
  case (Cons m ms)
  then show ?case
    by (auto split: sum.splits dest!: unchanged_handleResponse_latched
        intro: unchanged_pool_trans)
qed

lemma unchanged_sweep_workers:
  "sweep_workers E inbox ws s = Inr s' \<Longrightarrow> unchanged_pool s s'"
proof (induction ws arbitrary: s)
  case Nil
  then show ?case by simp
next
  case (Cons w ws)
  then show ?case
    by (auto split: sum.splits dest!: unchanged_worker_processPendingMessages
        intro: unchanged_pool_trans)
qed

lemma unchanged_handleResponse:
  "handleResponse E inbox w m s = Inr s' \<Longrightarrow> unchanged_pool s s'"
  by (auto simp: handleResponse_def processPendingMessages_def
      split: sum.splits if_splits dest!: unchanged_onMessage unchanged_sweep_workers
      intro: unchanged_pool_trans [OF _ unchanged_unref] unchanged_pool_trans)

lemma unchanged_fail_queued: "unchanged_pool s (fail_queued s)"
proof (induction s rule: fail_queued.induct)
  case (1 s)
  show ?case
  proof (cases "taskQueue s = []")
    case True
    then show ?thesis by (subst fail_queued.simps) simp
  next
    case False
    from "1" [OF False] have "unchanged_pool s (fail_queued
             (TaskInfo_done (hd (taskQueue s)) (Some (Error ''Terminating worker thread''))
                VUndefined (s\<lparr>taskQueue := tl (taskQueue s)\<rparr>)))"
      by (auto simp: unchanged_pool_def TaskInfo_done_def)
    with False show ?thesis by (subst fail_queued.simps) simp
  qed
qed

lemma unchanged_wf: "unchanged_pool s s' \<Longrightarrow> pool_wf s \<Longrightarrow> pool_wf s'"
  by (simp add: unchanged_pool_def pool_wf_def)

lemma static_onReady_listener:
  "onReady_listener E w s = Inr s' \<Longrightarrow> same_static s s'"
  by (auto simp: onReady_listener_def same_static_def unchanged_pool_def
      split: if_splits dest!: unchanged_maybeAvailable)

lemma wf_onReady_listener:
  "onReady_listener E w s = Inr s' \<Longrightarrow> pool_wf s \<Longrightarrow> pool_wf s'"
proof -
  assume run: "onReady_listener E w s = Inr s'" and wf: "pool_wf s"
  show ?thesis
  proof (cases "w \<in> set (pendingItems s)")
    case True
    let ?s1 = "s\<lparr>pendingItems := remove1 w (pendingItems s), readyItems := readyItems s @ [w]\<rparr>"
    from wf True have "pool_wf ?s1"
      by (auto simp: pool_wf_def dest: notin_set_remove1)
    moreover from run True have "unchanged_pool ?s1 s'"
      by (auto simp: onReady_listener_def dest: unchanged_maybeAvailable)
    ultimately show ?thesis by (rule unchanged_wf [rotated])
  next
    case False
    with run wf show ?thesis by (simp add: onReady_listener_def)
  qed
qed

lemma static_addNewWorker: "addNewWorker E s = Inr s' \<Longrightarrow> same_static s s'"
  by (auto simp: addNewWorker_def WorkerInfo_new_def pool_add_def Let_def emit_def
        same_static_def
      split: if_splits dest!: static_onReady_listener)

lemma wf_addNewWorker: "addNewWorker E s = Inr s' \<Longrightarrow> pool_wf s \<Longrightarrow> pool_wf s'"
proof -
  assume run: "addNewWorker E s = Inr s'" and wf: "pool_wf s"
  define s1 where "s1 = (WorkerInfo_new s)\<lparr>pendingItems := pendingItems s @ [workerCounter s]\<rparr>"
  from wf have wf1: "pool_wf s1"
    by (auto simp: s1_def pool_wf_def WorkerInfo_new_def emit_def less_Suc_eq)
  from run have "s' = s1 \<or> onReady_listener E (workerCounter s) s1 = Inr s'"
    by (auto simp: addNewWorker_def pool_add_def Let_def s1_def WorkerInfo_new_def emit_def
        split: if_splits)
  with wf1 show ?thesis by (auto dest: wf_onReady_listener)
qed

lemma wf_ensureMinimumWorkers_result:
  "ensureMinimumWorkers E s = Some r \<Longrightarrow> pool_wf s \<Longrightarrow>
     \<exists>s'. r = Inr s' \<and> pool_wf s' \<and> same_static s s'"
proof (induction rule: ensureMinimumWorkers_induct)
  case (stop E s)
  then show ?case by simp
next
  case (add E s s1 r)
  from add(3) [OF wf_addNewWorker [OF add(2) add(4)]] static_addNewWorker [OF add(2)]
  show ?case by (auto intro: same_static_trans)
qed

lemma wf_ensureMinimumWorkers:
  "ensureMinimumWorkers E s = Some (Inr s') \<Longrightarrow> pool_wf s \<Longrightarrow> pool_wf s' \<and> same_static s s'"
  using wf_ensureMinimumWorkers_result [of E s "Inr s'"] by simp

lemma wf_pool_delete: "pool_wf s \<Longrightarrow> pool_wf (pool_delete w s)"
  by (auto simp: pool_wf_def pool_delete_def dest: notin_set_remove1)

lemma wf_removeWorker: "pool_wf s \<Longrightarrow> pool_wf (removeWorker w s)"
  unfolding removeWorker_def
  by (intro wf_pool_delete unchanged_wf [OF unchanged_destroy])

lemma static_removeWorker [simp]: "same_static s (removeWorker w s)"
  using unchanged_destroy [of s w]
  by (simp add: removeWorker_def pool_delete_def same_static_def unchanged_pool_def)

lemma removeWorker_gone:
  "pool_wf s \<Longrightarrow> w \<notin> set (pendingItems (removeWorker w s)) \<and>
     w \<notin> set (readyItems (removeWorker w s))"
  using unchanged_destroy [of s w]
  by (auto simp: removeWorker_def pool_delete_def pool_wf_def unchanged_pool_def)

lemma wf_markAsReady:
  "markAsReady E w s = Inr s' \<Longrightarrow> pool_wf s \<Longrightarrow> pool_wf s' \<and> same_static s s'"
proof -
  assume run: "markAsReady E w s = Inr s'" and wf: "pool_wf s"
  define s1 where "s1 = update_worker w (\<lambda>wi. wi\<lparr>isReady := True\<rparr>) s"
  have u: "unchanged_pool s s1" by (simp add: s1_def)
  from run have l: "onReady_listener E w s1 = Inr s'"
    by (auto simp: markAsReady_def s1_def split: if_splits)
  from wf_onReady_listener [OF l unchanged_wf [OF u wf]] static_onReady_listener [OF l]
    unchanged_static [OF u]
  show ?thesis by (blast intro: same_static_trans)
qed

lemma wf_on_ready_message:
  "on_ready_message E w s = Inr s' \<Longrightarrow> pool_wf s \<Longrightarrow> pool_wf s' \<and> same_static s s'"
proof -
  assume run: "on_ready_message E w s = Inr s'" and wf: "pool_wf s"
  define s1 where "s1 = (if currentUsage s w = 0 then emit (PortUnref w) s else s)"
  have u: "unchanged_pool s s1" by (simp add: s1_def)
  from run have "s' = s1 \<or> markAsReady E w s1 = Inr s'"
    by (auto simp: on_ready_message_def Let_def s1_def split: if_splits)
  with wf_markAsReady [of E w s1 s'] unchanged_wf [OF u wf] unchanged_static [OF u]
  show ?thesis by (auto intro: same_static_trans)
qed

lemma wf_on_worker_error:
  "on_worker_error E w err s = Some (Inr s') \<Longrightarrow> pool_wf s \<Longrightarrow> pool_wf s' \<and> same_static s s'"
proof -
  assume run: "on_worker_error E w err s = Some (Inr s')" and wf: "pool_wf s"
  define s2 where "s2 = removeWorker w (update_worker w (\<lambda>wi. wi\<lparr>taskInfos := []\<rparr>) s)"
  have wf2: "pool_wf s2" and st2: "same_static s s2"
    unfolding s2_def
    by (auto intro!: wf_removeWorker unchanged_wf [OF unchanged_update_worker wf]
        same_static_trans [OF unchanged_static [OF unchanged_update_worker] static_removeWorker])
  from run obtain s3 where s3: "ensureMinimumWorkers E s2 = Some (Inr s3) \<or>
       s3 = s2\<lparr>workerFailsDuringBootstrap := True\<rparr>"
    and fin: "s' = fold (\<lambda>t. TaskInfo_done t (Some err) VNull) (taskInfos (workerHeap s w)) s3 \<or>
       s' = emit (Emit_error err) s3"
    by (auto simp: on_worker_error_def Let_def s2_def split: if_splits option.splits sum.splits)
  from s3 have "pool_wf s3 \<and> same_static s2 s3"
  proof
    assume "ensureMinimumWorkers E s2 = Some (Inr s3)"
    from wf_ensureMinimumWorkers [OF this wf2] show ?thesis .
  next
    assume "s3 = s2\<lparr>workerFailsDuringBootstrap := True\<rparr>"
    with wf2 show ?thesis by (simp add: pool_wf_def same_static_def)
  qed
  moreover have "unchanged_pool s3 s'"
    using fin by (auto intro: unchanged_fold_done)
  ultimately show ?thesis
    using st2 by (auto intro: unchanged_wf same_static_trans dest: unchanged_static)
qed

lemma wf_on_abort:
  "on_abort E t s = Some (Inr s') \<Longrightarrow> pool_wf s \<Longrightarrow> pool_wf s' \<and> same_static s s'"
proof -
  assume run: "on_abort E t s = Some (Inr s')" and wf: "pool_wf s"
  define s1 where "s1 = emit (PromiseReject t AbortError)
                 (s\<lparr>promise := (promise s)(t := settle (promise s t) (Rejected AbortError))\<rparr>)"
  have u: "unchanged_pool s s1" by (simp add: s1_def unchanged_pool_def emit_def)
  from run have "(\<exists>w. ensureMinimumWorkers E (removeWorker w s1) = Some (Inr s')) \<or>
      s' = s1\<lparr>taskQueue := remove1 t (taskQueue s1)\<rparr>"
    by (auto simp: on_abort_def Let_def s1_def split: option.splits if_splits)
  then show ?thesis
  proof
    assume "\<exists>w. ensureMinimumWorkers E (removeWorker w s1) = Some (Inr s')"
    then obtain w where "ensureMinimumWorkers E (removeWorker w s1) = Some (Inr s')" ..
    from wf_ensureMinimumWorkers [OF this wf_removeWorker [OF unchanged_wf [OF u wf]]]
    show ?thesis
      using unchanged_static [OF u] static_removeWorker [of s1 w]
      by (blast intro: same_static_trans)
  next
    assume "s' = s1\<lparr>taskQueue := remove1 t (taskQueue s1)\<rparr>"
    then have "unchanged_pool s1 s'" by simp
    with u have "unchanged_pool s s'" by (rule unchanged_pool_trans)
    then show ?thesis using wf by (auto dest: unchanged_wf unchanged_static)
  qed
qed

lemma wf_on_idle_timeout:
  "on_idle_timeout w s = Inr s' \<Longrightarrow> pool_wf s \<Longrightarrow> pool_wf s' \<and> same_static s s'"
  by (auto simp: on_idle_timeout_def split: if_splits intro: wf_removeWorker)

lemma wf_runTask:
  "runTask E tsk xfer name signal s = Inr (r, s') \<Longrightarrow> pool_wf s \<Longrightarrow>
     pool_wf s' \<and> same_static s s'"
proof -
  assume run: "runTask E tsk xfer name signal s = Inr (r, s')" and wf: "pool_wf s"
  show ?thesis
  proof (cases "case name of None \<Rightarrow> filename (options s) | Some n \<Rightarrow> Some n")
    case None
    with run wf show ?thesis by (simp add: runTask_def)
  next
    case (Some n)
    let ?s1 = "TaskInfo_new tsk xfer (maybeFileURLToPath E n) signal s"
    have u: "unchanged_pool s ?s1" by (simp add: unchanged_pool_def TaskInfo_new_def)
    from run Some have "\<exists>s2. (s2 = ?s1 \<or> addNewWorker E ?s1 = Inr s2) \<and> unchanged_pool s2 s'"
      unfolding runTask_def Let_def
      by (auto split: if_splits sum.splits option.splits
          dest!: unchanged_postTask
          intro: unchanged_pool_trans [OF _ unchanged_maybeDrain])
    then obtain s2 where s2: "s2 = ?s1 \<or> addNewWorker E ?s1 = Inr s2"
      and fin: "unchanged_pool s2 s'" by blast
    from s2 have "pool_wf s2 \<and> same_static ?s1 s2"
      using unchanged_wf [OF u wf] by (auto dest: wf_addNewWorker static_addNewWorker)
    with fin u show ?thesis
      by (auto intro: unchanged_wf same_static_trans dest: unchanged_static)
  qed
qed

lemma wf_remove_workers: "pool_wf s \<Longrightarrow> pool_wf (remove_workers s) \<and> same_static s (remove_workers s)"
proof (induction s rule: remove_workers.induct)
  case (1 s)
  show ?case
  proof (cases "size_workers s > 0")
    case True
    from "1.IH" [OF True wf_removeWorker [OF "1.prems"]] True
    show ?thesis
      by (subst (1 2) remove_workers.simps)
        (auto intro: same_static_trans [OF static_removeWorker])
  next
    case False
    with "1.prems" show ?thesis by (subst (1 2) remove_workers.simps) simp
  qed
qed

lemma wf_pool_destroy: "pool_wf s \<Longrightarrow> pool_wf (pool_destroy s) \<and> same_static s (pool_destroy s)"
  unfolding pool_destroy_def
  using wf_remove_workers [of "fail_queued s"] unchanged_fail_queued [of s]
  by (auto intro: same_static_trans dest: unchanged_wf unchanged_static)

lemma wf_step:
  "step E ev s = Some (Inr s') \<Longrightarrow> pool_wf s \<Longrightarrow> pool_wf s' \<and> same_static s s'"
proof (cases ev)
  case (Submit tsk xfer name signal)
  assume "step E ev s = Some (Inr s')" "pool_wf s"
  with Submit show ?thesis by (auto split: sum.splits dest: wf_runTask)
next
  case (Response w m inbox)
  assume "step E ev s = Some (Inr s')" "pool_wf s"
  with Response show ?thesis
    by (auto dest!: unchanged_handleResponse dest: unchanged_wf unchanged_static)
qed (auto dest: wf_on_ready_message wf_on_worker_error wf_on_abort wf_on_idle_timeout
       simp: wf_pool_destroy)

lemma reachable_ok: "reachable E cpuCount opts s \<Longrightarrow> pool_ok E cpuCount opts s"
proof (induction rule: reachable.induct)
  case (created s)
  then obtain s1 where
    s1: "ensureMinimumWorkers E (initial_pool (ThreadPool_options E cpuCount opts)) = Some (Inr s1)"
    and s: "s = s1\<lparr>startingUp := False\<rparr>"
    by (auto simp: Piscina_new_def ThreadPool_new_def split: option.splits sum.splits)
  have "pool_wf (initial_pool (ThreadPool_options E cpuCount opts))"
    by (simp add: pool_wf_def initial_pool_def)
  from wf_ensureMinimumWorkers [OF s1 this] Piscina_new_options [OF created] show ?case
    by (simp add: s pool_ok_def pool_wf_def same_static_def initial_pool_def)
next
  case (handled s ev s')
  from wf_step [OF handled(3)] handled(4) show ?case
    by (auto simp: pool_ok_def same_static_def)
qed

subsection \<open>Worker selection\<close>

lemma findAvailable_loop_zero:
  "find (\<lambda>x. currentUsage s x = 0) items = Some z \<Longrightarrow> findAvailable_loop s items m c = Some z"
  by (induction items arbitrary: m c) (auto simp: Let_def split: if_splits)

lemma findAvailable_loop_nonzero:
  "\<forall>x\<in>set items. currentUsage s x \<noteq> 0 \<Longrightarrow>
   findAvailable_loop s items m c =
     (if \<forall>x\<in>set items. m \<le> currentUsage s x then c
      else find (\<lambda>x. currentUsage s x = Min (currentUsage s ` set items)) items)"
proof (induction items arbitrary: m c)
  case Nil
  show ?case by simp
next
  case (Cons x xs)
  let ?u = "currentUsage s"
  from Cons.prems have nz: "?u x \<noteq> 0" and rest: "\<forall>y\<in>set xs. ?u y \<noteq> 0" by simp_all
  note IH = Cons.IH [OF rest]
  show ?case
  proof (cases "?u x < m")
    case True
    have step: "findAvailable_loop s (x # xs) m c = findAvailable_loop s xs (?u x) (Some x)"
      using nz True by (simp add: Let_def)
    show ?thesis
    proof (cases "\<forall>y\<in>set xs. ?u x \<le> ?u y")
      case all: True
      then have "Min (?u ` set (x # xs)) = ?u x"
        by (intro Min_eqI) auto
      with True all show ?thesis unfolding step IH by auto
    next
      case some: False
      then obtain y where y: "y \<in> set xs" "?u y < ?u x" by (auto simp: not_le)
      then have ne: "xs \<noteq> []" by auto
      have "Min (?u ` set xs) \<le> ?u y" using y by (intro Min_le) auto
      from le_less_trans [OF this y(2)] have lt: "Min (?u ` set xs) < ?u x" .
      have "Min (insert (?u x) (?u ` set xs)) = min (?u x) (Min (?u ` set xs))"
        using ne by (intro Min_insert) auto
      with lt have "Min (?u ` set (x # xs)) = Min (?u ` set xs)"
        by (simp add: min_absorb2 less_imp_le)
      with lt True some show ?thesis unfolding step IH by auto
    qed
  next
    case False
    then have ge: "m \<le> ?u x" by simp
    have step: "findAvailable_loop s (x # xs) m c = findAvailable_loop s xs m c"
      using nz False by (simp add: Let_def)
    show ?thesis
    proof (cases "\<forall>y\<in>set xs. m \<le> ?u y")
      case True
      with ge show ?thesis unfolding step IH by simp
    next
      case some: False
      then obtain y where y: "y \<in> set xs" "?u y < m" by (auto simp: not_le)
      then have ne: "xs \<noteq> []" by auto
      have "Min (?u ` set xs) \<le> ?u y" using y by (intro Min_le) auto
      from less_le_trans [OF le_less_trans [OF this y(2)] ge]
      have lt: "Min (?u ` set xs) < ?u x" .
      have "Min (insert (?u x) (?u ` set xs)) = min (?u x) (Min (?u ` set xs))"
        using ne by (intro Min_insert) auto
      with lt have "Min (?u ` set (x # xs)) = Min (?u ` set xs)"
        by (simp add: min_absorb2 less_imp_le)
      with lt some show ?thesis unfolding step IH by auto
    qed
  qed
qed

lemma currentUsage_cases:
  "currentUsage s w =
     (if \<exists>t. taskInfos (workerHeap s w) = [t] \<and> abortSignal (taskHeap s t) \<noteq> None
      then \<infinity> else enat (length (taskInfos (workerHeap s w))))"
  by (auto simp: currentUsage_def isRunningAbortableTask_def split: list.splits)

text \<open>
  Claim C5.  In a pool that was constructed, \<^verbatim>\<open>findAvailable\<close> returns the first
  ready worker whose usage is 0; with none, the ready worker of lowest usage strictly
  below \<^verbatim>\<open>concurrentTasksPerWorker\<close>, the first such in iteration order; with none,
  null.  The usage of a worker is infinite exactly when its task map holds one descriptor
  and that descriptor has an abort signal, and is the size of the task map otherwise; a
  worker running a single abortable task is never returned.
\<close>

theorem findAvailable_selects:
  assumes "reachable E cpuCount opts s"
  shows "currentUsage s w =
           (if \<exists>t. taskInfos (workerHeap s w) = [t] \<and> abortSignal (taskHeap s t) \<noteq> None
            then \<infinity> else enat (length (taskInfos (workerHeap s w)))) \<and>
         (find (\<lambda>x. currentUsage s x = 0) (readyItems s) = Some z \<longrightarrow> findAvailable s = Some z) \<and>
         (find (\<lambda>x. currentUsage s x = 0) (readyItems s) = None \<longrightarrow>
            (if \<forall>x\<in>set (readyItems s).
                  enat (concurrentTasksPerWorker (options s)) \<le> currentUsage s x
             then findAvailable s = None
             else \<exists>i<length (readyItems s).
                    findAvailable s = Some (readyItems s ! i) \<and>
                    currentUsage s (readyItems s ! i) < enat (concurrentTasksPerWorker (options s)) \<and>
                    (\<forall>j<length (readyItems s).
                       currentUsage s (readyItems s ! i) \<le> currentUsage s (readyItems s ! j)) \<and>
                    (\<forall>j<i. currentUsage s (readyItems s ! i) < currentUsage s (readyItems s ! j)))) \<and>
         (isRunningAbortableTask s w \<longrightarrow> findAvailable s \<noteq> Some w)"
proof -
  let ?u = "currentUsage s" and ?rs = "readyItems s"
  let ?c = "enat (concurrentTasksPerWorker (options s))"
  from reachable_ok [OF assms] have mu: "enat (maximumUsage s) = ?c"
    by (simp add: pool_ok_def)
  have zero: "findAvailable s = Some z" if "find (\<lambda>x. ?u x = 0) ?rs = Some z" for z
    using findAvailable_loop_zero [OF that] by (simp add: findAvailable_def)
  have nonzero: "findAvailable s =
      (if \<forall>x\<in>set ?rs. ?c \<le> ?u x then None
       else find (\<lambda>x. ?u x = Min (?u ` set ?rs)) ?rs)"
    if "find (\<lambda>x. ?u x = 0) ?rs = None"
    using findAvailable_loop_nonzero [of ?rs s "enat (maximumUsage s)" None] that
    by (simp add: findAvailable_def find_None_iff mu)
  have second: "\<exists>i<length ?rs. findAvailable s = Some (?rs ! i) \<and> ?u (?rs ! i) < ?c \<and>
        (\<forall>j<length ?rs. ?u (?rs ! i) \<le> ?u (?rs ! j)) \<and> (\<forall>j<i. ?u (?rs ! i) < ?u (?rs ! j))"
    if none: "find (\<lambda>x. ?u x = 0) ?rs = None" and some: "\<not> (\<forall>x\<in>set ?rs. ?c \<le> ?u x)"
  proof -
    from some obtain y where y: "y \<in> set ?rs" "?u y < ?c" by (auto simp: not_le)
    then have ne: "set ?rs \<noteq> {}" by auto
    let ?m = "Min (?u ` set ?rs)"
    have "?m \<in> ?u ` set ?rs" using ne by (intro Min_in) auto
    then obtain x where x: "x \<in> set ?rs" "?u x = ?m" by auto
    then have "find (\<lambda>x. ?u x = ?m) ?rs \<noteq> None" by (auto simp: find_None_iff)
    then obtain v where v: "find (\<lambda>x. ?u x = ?m) ?rs = Some v" by auto
    then obtain i where i: "i < length ?rs" "?u (?rs ! i) = ?m" "v = ?rs ! i"
      "\<forall>j<i. ?u (?rs ! j) \<noteq> ?m"
      unfolding find_Some_iff by blast
    have le: "?m \<le> ?u (?rs ! j)" if "j < length ?rs" for j
      using that by (intro Min_le) auto
    have "?m \<le> ?u y" using y by (intro Min_le) auto
    from le_less_trans [OF this y(2)] have "?m < ?c" .
    moreover have "\<forall>j<i. ?m < ?u (?rs ! j)"
    proof (intro allI impI)
      fix j assume ji: "j < i"
      with i(4) have ne: "?m \<noteq> ?u (?rs ! j)" by fastforce
      from ji i(1) have "j < length ?rs" by simp
      from le_neq_trans [OF le [OF this] ne] show "?m < ?u (?rs ! j)" .
    qed
    ultimately show ?thesis
      using nonzero [OF none] some v i le by auto
  qed
  have never: "findAvailable s \<noteq> Some w" if ab: "isRunningAbortableTask s w"
  proof
    assume sel: "findAvailable s = Some w"
    from ab have inf: "?u w = \<infinity>" by (simp add: currentUsage_def)
    show False
    proof (cases "find (\<lambda>x. ?u x = 0) ?rs")
      case (Some z)
      with zero [OF Some] sel have "?u w = 0" by (auto simp: find_Some_iff)
      with inf show False by (simp add: zero_enat_def)
    next
      case None
      show False
      proof (cases "\<forall>x\<in>set ?rs. ?c \<le> ?u x")
        case True
        with nonzero [OF None] sel show False by simp
      next
        case False
        from second [OF None False] sel inf show False by auto
      qed
    qed
  qed
  from zero nonzero second never currentUsage_cases [of s w] show ?thesis
    by (auto simp del: not_None_eq)
qed

subsection \<open>Posting a task and queue admission\<close>

lemma callbacks_emit:
  "callbacks (emit e s) t = callbacks s t + (if is_callback t e then 1 else 0)"
  by (simp add: callbacks_def emit_def)

text \<open>
  Claim C6.  \<^verbatim>\<open>postTask\<close> asserts that the task id is not in the task map.  When
  sending throws, the descriptor is completed with that error and the worker heap is
  unchanged (nothing recorded, no owning worker, timer and counter untouched).  When
  sending succeeds, the descriptor is appended to the task map, its \<^verbatim>\<open>workerInfo\<close>
  is the worker, the port is reffed, the idle timer is cleared, and the request counter
  is incremented by one (a wrapping \<^verbatim>\<open>Int32\<close>) and then notified; the callback does
  not run.
\<close>

theorem postTask_outcomes:
  "(t \<in> set (taskInfos (workerHeap s w)) \<longrightarrow> postTask E w t s = Inl AssertionError) \<and>
   (t \<notin> set (taskInfos (workerHeap s w)) \<longrightarrow>
     (case postMessage E
             \<lparr>rm_task = task (taskHeap s t), rm_taskId = t,
              rm_filename = ti_filename (taskHeap s t)\<rparr>
             (transferList (taskHeap s t)) of
        Some err \<Rightarrow>
          \<exists>s'. postTask E w t s = Inr s' \<and>
               workerHeap s' = workerHeap s \<and>
               workerInfo (taskHeap s' t) = workerInfo (taskHeap s t) \<and>
               effects s' = effects s @ [Callback t (Some err) VUndefined] \<and>
               promise s' t = settle (promise s t) (Rejected err)
      | None \<Rightarrow>
          \<exists>s'. postTask E w t s = Inr s' \<and>
               taskInfos (workerHeap s' w) = taskInfos (workerHeap s w) @ [t] \<and>
               workerInfo (taskHeap s' t) = Some w \<and>
               \<not> w_idleTimeout (workerHeap s' w) \<and>
               sharedBuffer (workerHeap s' w) =
                 Atomics_add (sharedBuffer (workerHeap s w)) kRequestCountField 1 \<and>
               (kRequestCountField < length (sharedBuffer (workerHeap s w)) \<longrightarrow>
                  sharedBuffer (workerHeap s' w) ! kRequestCountField =
                    sharedBuffer (workerHeap s w) ! kRequestCountField + 1) \<and>
               effects s' =
                 effects s @ [PostMessage w t, PortRef w] @
                 (if w_idleTimeout (workerHeap s w) then [ClearTimeout w] else []) @
                 [AtomicsAdd w, AtomicsNotify w] \<and>
               callbacks s' t = callbacks s t))"
  by (auto simp: postTask_def Let_def TaskInfo_done_def clearIdleTimeout_def update_worker_def
        update_task_def emit_def Atomics_add_def callbacks_def
      split: option.splits)

lemma addNewWorker_pending:
  "\<not> startingUp s \<Longrightarrow>
     addNewWorker E s = Inr ((WorkerInfo_new s)\<lparr>pendingItems := pendingItems s @ [workerCounter s]\<rparr>)"
  by (simp add: addNewWorker_def pool_add_def WorkerInfo_new_def emit_def Let_def)


subsection \<open>Replenishing the pool; the error listener\<close>

lemma spawn_0 [simp]: "spawn 0 s = s"
  by (cases s) (auto simp: spawn_def fun_eq_iff)

lemma addNewWorker_spawn: "\<not> startingUp s \<Longrightarrow> addNewWorker E s = Inr (spawn (Suc 0) s)"
  by (simp add: addNewWorker_pending spawn_def WorkerInfo_new_def emit_def fun_eq_iff)

lemma spawn_Suc: "spawn n (spawn (Suc 0) s) = spawn (Suc n) s"
  by (auto simp: spawn_def fun_eq_iff upt_conv_Cons)

lemma spawn_fields [simp]:
  "readyItems (spawn n s) = readyItems s" "taskQueue (spawn n s) = taskQueue s"
  "options (spawn n s) = options s" "startingUp (spawn n s) = startingUp s"
  "workerFailsDuringBootstrap (spawn n s) = workerFailsDuringBootstrap s"
  "taskHeap (spawn n s) = taskHeap s" "promise (spawn n s) = promise s"
  "taskIdCounter (spawn n s) = taskIdCounter s" "completed (spawn n s) = completed s"
  "size_workers (spawn n s) = size_workers s + n"
  "pendingItems (spawn n s) = pendingItems s @ [workerCounter s ..< workerCounter s + n]"
  "effects (spawn n s) = effects s @ map NewWorker [workerCounter s ..< workerCounter s + n]"
  "w < workerCounter s \<Longrightarrow> workerHeap (spawn n s) w = workerHeap s w"
  by (simp_all add: spawn_def size_workers_def)

text \<open>Outside the constructor the loop returns, having added exactly the missing workers,
  unless \<^verbatim>\<open>minThreads\<close> is \<^verbatim>\<open>Infinity\<close>.\<close>

lemma ensureMinimumWorkers_spawn:
  "\<not> startingUp s \<Longrightarrow> minThreads (options s) \<noteq> Infinity \<Longrightarrow>
     ensureMinimumWorkers E s =
       Some (Inr (spawn (missing (minThreads (options s)) (size_workers s)) s))"
proof (induction "missing (minThreads (options s)) (size_workers s)" arbitrary: s)
  case 0
  show ?case
  proof (cases "num_lt (Fin (of_nat (size_workers s))) (minThreads (options s))")
    case True
    from missing_Suc [OF True "0.prems"(2)] "0.hyps" show ?thesis by simp
  next
    case False
    with missing_zero [OF False] show ?thesis by (subst ensureMinimumWorkers.simps) simp
  qed
next
  case (Suc n)
  show ?case
  proof (cases "num_lt (Fin (of_nat (size_workers s))) (minThreads (options s))")
    case True
    note add = addNewWorker_spawn [OF Suc.prems(1), of E]
    from missing_Suc [OF True Suc.prems(2)] Suc.hyps(2)
    have n: "n = missing (minThreads (options (spawn (Suc 0) s))) (size_workers (spawn (Suc 0) s))"
      and m: "missing (minThreads (options s)) (size_workers s) = Suc n"
      by simp_all
    from Suc.hyps(1) [OF n] Suc.prems
    have "ensureMinimumWorkers E (spawn (Suc 0) s) = Some (Inr (spawn n (spawn (Suc 0) s)))"
      using n by simp
    also have "\<dots> = Some (Inr (spawn (Suc n) s))"
      by (simp only: spawn_Suc)
    finally show ?thesis
      using True add m by (subst ensureMinimumWorkers.simps) simp
  next
    case False
    with missing_zero [OF False] show ?thesis by (subst ensureMinimumWorkers.simps) simp
  qed
qed

lemma spawn_enough:
  "minThreads (options s) \<noteq> Infinity \<Longrightarrow>
     \<not> num_lt (Fin (of_nat (size_workers (spawn (missing (minThreads (options s)) (size_workers s)) s))))
              (minThreads (options s))"
  by (cases "minThreads (options s)") (simp_all, linarith)

lemma fold_done_fields [simp]:
  "effects (fold (\<lambda>t. TaskInfo_done t e r) ts s) = effects s @ map (\<lambda>t. Callback t e r) ts"
  "workerHeap (fold (\<lambda>t. TaskInfo_done t e r) ts s) = workerHeap s"
  "taskHeap (fold (\<lambda>t. TaskInfo_done t e r) ts s) = taskHeap s"
  "taskQueue (fold (\<lambda>t. TaskInfo_done t e r) ts s) = taskQueue s"
  "taskIdCounter (fold (\<lambda>t. TaskInfo_done t e r) ts s) = taskIdCounter s"
  "pendingItems (fold (\<lambda>t. TaskInfo_done t e r) ts s) = pendingItems s"
  "readyItems (fold (\<lambda>t. TaskInfo_done t e r) ts s) = readyItems s"
  "options (fold (\<lambda>t. TaskInfo_done t e r) ts s) = options s"
  "workerCounter (fold (\<lambda>t. TaskInfo_done t e r) ts s) = workerCounter s"
  "startingUp (fold (\<lambda>t. TaskInfo_done t e r) ts s) = startingUp s"
  "workerFailsDuringBootstrap (fold (\<lambda>t. TaskInfo_done t e r) ts s) =
     workerFailsDuringBootstrap s"
  by (induction ts arbitrary: s) (simp_all add: TaskInfo_done_def)

lemma size_workers_fold_done [simp]:
  "size_workers (fold (\<lambda>t. TaskInfo_done t e r) ts s) = size_workers s"
  by (simp add: size_workers_def)

lemma emit_fields [simp]:
  "effects (emit e s) = effects s @ [e]" "workerHeap (emit e s) = workerHeap s"
  "taskHeap (emit e s) = taskHeap s" "taskQueue (emit e s) = taskQueue s"
  "taskIdCounter (emit e s) = taskIdCounter s" "pendingItems (emit e s) = pendingItems s"
  "readyItems (emit e s) = readyItems s" "options (emit e s) = options s"
  "workerCounter (emit e s) = workerCounter s" "startingUp (emit e s) = startingUp s"
  "workerFailsDuringBootstrap (emit e s) = workerFailsDuringBootstrap s"
  "promise (emit e s) = promise s" "size_workers (emit e s) = size_workers s"
  "maximumUsage (emit e s) = maximumUsage s" "completed (emit e s) = completed s"
  by (simp_all add: emit_def size_workers_def)

lemma unchanged_fields:
  "unchanged_pool s s' \<Longrightarrow>
     pendingItems s' = pendingItems s \<and> readyItems s' = readyItems s \<and>
     workerCounter s' = workerCounter s \<and> options s' = options s \<and>
     startingUp s' = startingUp s \<and> workerFailsDuringBootstrap s' = workerFailsDuringBootstrap s \<and>
     size_workers s' = size_workers s"
  by (simp add: unchanged_pool_def size_workers_def)

lemma set_remove1_distinct: "distinct xs \<Longrightarrow> x \<notin> set (remove1 x xs)"
  by simp

text \<open>
  Claim C8.  When a worker of a constructed pool emits an error: its task map
  is snapshotted and cleared and the handle is removed from both sets of the pool; if
  the handle was ready and the sticky flag is unset the pool is refilled, with exactly
  the missing number of new pending workers, until the number of workers is no longer
  below \<^verbatim>\<open>minThreads\<close>; otherwise the
  flag \<^verbatim>\<open>workerFailsDuringBootstrap\<close> is set and nothing is spawned; then every
  snapshotted descriptor is completed with the error, in order, or, with an empty
  snapshot, the error is emitted on the pool.
\<close>

theorem worker_error_handling:
  assumes "reachable E cpuCount opts s" and "w < workerCounter s"
  shows "\<exists>s' n. on_worker_error E w err s = Some (Inr s') \<and>
     taskInfos (workerHeap s' w) = [] \<and>
     w \<notin> set (pendingItems s') \<and> w \<notin> set (readyItems s') \<and>
     readyItems s' = remove1 w (readyItems s) \<and>
     pendingItems s' = remove1 w (pendingItems s) @ [workerCounter s ..< workerCounter s + n] \<and>
     (if isReady (workerHeap s w) \<and> \<not> workerFailsDuringBootstrap s
      then n = missing (minThreads (options s))
                 (length (remove1 w (pendingItems s)) + length (remove1 w (readyItems s))) \<and>
           \<not> num_lt (Fin (of_nat (size_workers s'))) (minThreads (options s)) \<and>
           \<not> workerFailsDuringBootstrap s'
      else n = 0 \<and> workerFailsDuringBootstrap s') \<and>
     effects s' =
       effects s @ [Terminate w, PortClose w] @
       (if w_idleTimeout (workerHeap s w) then [ClearTimeout w] else []) @
       map NewWorker [workerCounter s ..< workerCounter s + n] @
       (if taskInfos (workerHeap s w) \<noteq> []
        then map (\<lambda>t. Callback t (Some err) VNull) (taskInfos (workerHeap s w))
        else [Emit_error err])"
proof -
  from reachable_ok [OF assms(1)] have wf: "pool_wf s" and st: "\<not> startingUp s"
    and fin: "minThreads (options s) \<noteq> Infinity"
    by (auto simp: pool_ok_def)
  from wf have dist: "distinct (pendingItems s)" "distinct (readyItems s)"
    by (simp_all add: pool_wf_def)
  let ?s1 = "update_worker w (\<lambda>wi. wi\<lparr>taskInfos := []\<rparr>) s"
  let ?s2 = "removeWorker w ?s1"
  have s2: "pendingItems ?s2 = remove1 w (pendingItems s)"
    "readyItems ?s2 = remove1 w (readyItems s)"
    "workerCounter ?s2 = workerCounter s" "options ?s2 = options s"
    "\<not> startingUp ?s2" "workerFailsDuringBootstrap ?s2 = workerFailsDuringBootstrap s"
    "isReady (workerHeap ?s2 w) = isReady (workerHeap s w)"
    "taskInfos (workerHeap ?s2 w) = []"
    "size_workers ?s2 = length (remove1 w (pendingItems s)) + length (remove1 w (readyItems s))"
    "effects ?s2 = effects s @ [Terminate w, PortClose w] @
       (if w_idleTimeout (workerHeap s w) then [ClearTimeout w] else [])"
    using st
    by (simp_all add: removeWorker_def pool_delete_def destroy_def Let_def update_worker_def
        clearIdleTimeout_def emit_def size_workers_def)
  show ?thesis
  proof (cases "isReady (workerHeap s w) \<and> \<not> workerFailsDuringBootstrap s")
    case True
    let ?n = "missing (minThreads (options s))
                 (length (remove1 w (pendingItems s)) + length (remove1 w (readyItems s)))"
    have fin2: "minThreads (options ?s2) \<noteq> Infinity"
      using fin by (simp add: s2)
    have em: "ensureMinimumWorkers E ?s2 = Some (Inr (spawn ?n ?s2))"
      using ensureMinimumWorkers_spawn [OF s2(5) fin2, of E] by (simp only: s2)
    have enough: "\<not> num_lt (Fin (of_nat (size_workers (spawn ?n ?s2)))) (minThreads (options s))"
      using spawn_enough [OF fin2] by (simp only: s2 not_False_eq_True)
    show ?thesis
      apply (rule exI [of _ "if taskInfos (workerHeap s w) \<noteq> []
           then fold (\<lambda>t. TaskInfo_done t (Some err) VNull) (taskInfos (workerHeap s w)) (spawn ?n ?s2)
           else emit (Emit_error err) (spawn ?n ?s2)"])
      apply (rule exI [of _ ?n])
      using True enough dist assms(2)
      apply (simp add: on_worker_error_def Let_def s2 em)
      done
  next
    case False
    show ?thesis
      apply (rule exI [of _ "if taskInfos (workerHeap s w) \<noteq> []
           then fold (\<lambda>t. TaskInfo_done t (Some err) VNull) (taskInfos (workerHeap s w))
                  (?s2\<lparr>workerFailsDuringBootstrap := True\<rparr>)
           else emit (Emit_error err) (?s2\<lparr>workerFailsDuringBootstrap := True\<rparr>)"])
      apply (rule exI [of _ 0])
      using False dist
      apply (simp add: on_worker_error_def Let_def s2)
      done
  qed
qed

subsection \<open>The abort listener\<close>

lemma settle_settle [simp]: "settle (settle p x) y = settle p x" if "x \<noteq> Pending"
  using that by (simp add: settle_def)

lemma promise_fold_done:
  "promise (fold (\<lambda>t. TaskInfo_done t (Some e) r) ts s) t =
     (if t \<in> set ts then settle (promise s t) (Rejected e) else promise s t)"
  by (induction ts arbitrary: s) (auto simp: TaskInfo_done_def settle_def)

lemma destroy_fields:
  "effects (destroy w s) =
     effects s @ [Terminate w, PortClose w] @
     (if w_idleTimeout (workerHeap s w) then [ClearTimeout w] else []) @
     map (\<lambda>t. Callback t (Some ThreadTermination) VUndefined) (taskInfos (workerHeap s w))"
  "taskInfos (workerHeap (destroy w s) w) = []"
  "taskQueue (destroy w s) = taskQueue s"
  "taskHeap (destroy w s) = taskHeap s"
  "promise (destroy w s) t =
     (if t \<in> set (taskInfos (workerHeap s w))
      then settle (promise s t) (Rejected ThreadTermination) else promise s t)"
  by (simp_all add: destroy_def Let_def clearIdleTimeout_def update_worker_def
      promise_fold_done)

lemma removeWorker_fields:
  "effects (removeWorker w s) = effects (destroy w s)"
  "workerHeap (removeWorker w s) = workerHeap (destroy w s)"
  "taskQueue (removeWorker w s) = taskQueue s"
  "promise (removeWorker w s) = promise (destroy w s)"
  "pendingItems (removeWorker w s) = remove1 w (pendingItems s)"
  "readyItems (removeWorker w s) = remove1 w (readyItems s)"
  "workerCounter (removeWorker w s) = workerCounter s"
  "options (removeWorker w s) = options s"
  "startingUp (removeWorker w s) = startingUp s"
  "size_workers (removeWorker w s) =
     length (remove1 w (pendingItems s)) + length (remove1 w (readyItems s))"
  using unchanged_destroy [of s w]
  by (simp_all add: removeWorker_def pool_delete_def unchanged_pool_def destroy_fields
      size_workers_def)


subsection \<open>The properties on sample pools\<close>

lemmas run_defs = runTask_def findAvailable_def pendingCapacity_def removeWorker_def
  pool_delete_def destroy_def on_abort_def handleResponse_def onMessage_def
  processPendingMessages_def unref_if_idle_def settle_def callbacks_def

lemma reachable_run:
  "reachable E cpuCount opts s \<Longrightarrow> run E evs s = Some (Inr s') \<Longrightarrow>
     reachable E cpuCount opts s'"
proof (induction evs arbitrary: s)
  case Nil
  then show ?case by simp
next
  case (Cons ev evs)
  from Cons.prems(2) obtain s1 where en: "enabled ev s" and st: "step E ev s = Some (Inr s1)"
    and rest: "run E evs s1 = Some (Inr s')"
    by (auto split: if_splits option.splits sum.splits)
  from Cons.IH [OF reachable.handled [OF Cons.prems(1) en st] rest] show ?case .
qed

lemma pool_auto_made: "Piscina_new E0 2 opts_auto = Some (Inr pool_auto)"
  by (simp add: pool_auto_def eval_defs opts_auto_def)

lemma pool_auto_reachable: "reachable E0 2 opts_auto pool_auto"
  by (rule reachable.created [OF pool_auto_made])

lemma pool_single_made: "Piscina_new E0 2 opts_single = Some (Inr pool_single)"
  by (simp add: pool_single_def eval_defs opts_single_def)

lemma pool_single_reachable: "reachable E0 2 opts_single pool_single"
  by (rule reachable.created [OF pool_single_made])

lemma pool_two_made: "Piscina_new E0 2 opts_shared = Some (Inr pool_two)"
  by (simp add: pool_two_def eval_defs opts_shared_def)

lemma pool_busy_made:
  "run E0 [Submit (VNum 1) None None None] pool_two = Some (Inr pool_busy)"
  by (simp add: pool_busy_def pool_two_def eval_defs opts_shared_def run_defs
      one_enat_def zero_enat_def)

lemma pool_busy_reachable: "reachable E0 2 opts_shared pool_busy"
  by (rule reachable_run [OF reachable.created [OF pool_two_made] pool_busy_made])

lemma pool_busy_fields:
  "readyItems pool_busy = [0]" "currentUsage pool_busy 0 = 1"
  "concurrentTasksPerWorker (options pool_busy) = 2"
  "taskInfos (workerHeap pool_busy 0) = [0]" "abortSignal (taskHeap pool_busy 0) = None"
  by (simp_all add: pool_busy_def pool_two_def eval_defs opts_shared_def run_defs
      one_enat_def zero_enat_def)

lemma pool_waiting_made:
  "run E0 [Submit (VNum 1) None None None, Submit (VNum 2) None None None] pool_single =
     Some (Inr pool_waiting)"
  by (simp add: pool_waiting_def pool_single_def eval_defs opts_single_def run_defs
      one_enat_def zero_enat_def)

lemma pool_waiting_fields:
  "taskQueue pool_waiting = [1]" "\<not> startingUp pool_waiting"
  "filename (options pool_waiting) = Some ''worker.js''"
  "maxQueue (options pool_waiting) = Fin 1" "pendingItems pool_waiting = []"
  "taskInfos (workerHeap pool_waiting 0) = [0]" "readyItems pool_waiting = [0]"
  "taskIdCounter pool_waiting = 2"
  "\<not> w_idleTimeout (workerHeap pool_waiting 0)"
  "sharedBuffer (workerHeap pool_waiting 0) = [1, 0]"
  "task (taskHeap pool_waiting 1) = VNum 2" "transferList (taskHeap pool_waiting 1) = None"
  "ti_filename (taskHeap pool_waiting 1) = ''worker.js''"
  "workerInfo (taskHeap pool_waiting 1) = None"
  by (simp_all add: pool_waiting_def pool_single_def eval_defs opts_single_def run_defs
      one_enat_def zero_enat_def Atomics_add_def kRequestCountField_def)

lemma pool_running_made:
  "run E0 [Submit (VNum 1) None None None] pool_single = Some (Inr pool_running)"
  by (simp add: pool_running_def pool_single_def eval_defs opts_single_def run_defs
      one_enat_def zero_enat_def)

lemma pool_running_fields:
  "workerCounter pool_running = 1" "taskInfos (workerHeap pool_running 0) = [0]"
  "isReady (workerHeap pool_running 0)" "\<not> workerFailsDuringBootstrap pool_running"
  "\<not> w_idleTimeout (workerHeap pool_running 0)"
  "pendingItems pool_running = []" "readyItems pool_running = [0]"
  "minThreads (options pool_running) = Fin 1"
  "effects pool_running = [NewWorker 0, PostMessage 0 0, PortRef 0, AtomicsAdd 0, AtomicsNotify 0, Emit_drain]"
  by (simp_all add: pool_running_def pool_single_def eval_defs opts_single_def run_defs
      one_enat_def zero_enat_def)

lemma pool_abortable_made:
  "run E0 [Submit (VNum 1) None None (Some 7), Submit (VNum 2) None None (Some 8)] pool_single =
     Some (Inr pool_abortable)"
  by (simp add: pool_abortable_def pool_single_def eval_defs opts_single_def run_defs
      one_enat_def zero_enat_def)

lemma pool_abortable_reachable: "reachable E0 2 opts_single pool_abortable"
  by (rule reachable_run [OF pool_single_reachable pool_abortable_made])

lemma pool_abortable_fields:
  "workerCounter pool_abortable = 1" "taskInfos (workerHeap pool_abortable 0) = [0]"
  "\<not> w_idleTimeout (workerHeap pool_abortable 0)"
  "pendingItems pool_abortable = []" "readyItems pool_abortable = [0]"
  "minThreads (options pool_abortable) = Fin 1" "taskQueue pool_abortable = [1]"
  "workerInfo (taskHeap pool_abortable 0) = Some 0"
  "workerInfo (taskHeap pool_abortable 1) = None"
  "promise pool_abortable 0 = Pending" "promise pool_abortable 1 = Pending"
  "abortSignal (taskHeap pool_abortable 0) = Some 7"
  by (simp_all add: pool_abortable_def pool_single_def eval_defs opts_single_def run_defs
      one_enat_def zero_enat_def)

theorem findAvailable_selects_witness:
  "reachable E0 2 opts_auto pool_auto \<and> readyItems pool_auto = [0] \<and>
   currentUsage pool_auto 0 = 0 \<and> findAvailable pool_auto = Some 0 \<and>
   reachable E0 2 opts_shared pool_busy \<and> readyItems pool_busy = [0] \<and>
   currentUsage pool_busy 0 = 1 \<and> concurrentTasksPerWorker (options pool_busy) = 2 \<and>
   findAvailable pool_busy = Some 0 \<and>
   reachable E0 2 opts_single pool_abortable \<and> readyItems pool_abortable = [0] \<and>
   isRunningAbortableTask pool_abortable 0 \<and> currentUsage pool_abortable 0 = \<infinity> \<and>
   findAvailable pool_abortable = None"
proof -
  have z: "find (\<lambda>x. currentUsage pool_auto x = 0) (readyItems pool_auto) = Some 0"
    by (simp add: pool_auto_def eval_defs opts_auto_def zero_enat_def)
  have r: "readyItems pool_auto = [0]" "currentUsage pool_auto 0 = 0"
    by (simp_all add: pool_auto_def eval_defs opts_auto_def zero_enat_def)
  from findAvailable_selects [OF pool_auto_reachable, of 0 0] z
  have first: "findAvailable pool_auto = Some 0" by blast
  note b = pool_busy_fields
  have bz: "find (\<lambda>x. currentUsage pool_busy x = 0) (readyItems pool_busy) = None"
    by (simp add: b)
  from findAvailable_selects [OF pool_busy_reachable, of 0 0] bz
  have second: "findAvailable pool_busy = Some 0"
    by (simp add: b one_enat_def)
  note a = pool_abortable_fields
  have ab: "isRunningAbortableTask pool_abortable 0"
    by (simp add: isRunningAbortableTask_def a)
  then have inf: "currentUsage pool_abortable 0 = \<infinity>"
    by (simp add: currentUsage_def)
  have az: "find (\<lambda>x. currentUsage pool_abortable x = 0) (readyItems pool_abortable) = None"
    by (simp add: a inf zero_enat_def)
  from findAvailable_selects [OF pool_abortable_reachable, of 0 0] az
  have third: "findAvailable pool_abortable = None"
    by (simp add: a inf)
  from r first b second a ab inf third pool_auto_reachable pool_busy_reachable
    pool_abortable_reachable
  show ?thesis by simp
qed

theorem postTask_outcomes_witness:
  "1 \<notin> set (taskInfos (workerHeap pool_waiting 0)) \<and>
   0 \<in> set (taskInfos (workerHeap pool_waiting 0)) \<and>
   postTask E0 0 0 pool_waiting = Inl AssertionError \<and>
   (\<exists>s'. postTask E0 0 1 pool_waiting = Inr s' \<and>
         taskInfos (workerHeap s' 0) = [0, 1] \<and> workerInfo (taskHeap s' 1) = Some 0 \<and>
         sharedBuffer (workerHeap s' 0) = [2, 0] \<and>
         effects s' = effects pool_waiting @ [PostMessage 0 1, PortRef 0, AtomicsAdd 0, AtomicsNotify 0]) \<and>
   (\<exists>s'. postTask E_fail 0 1 pool_waiting = Inr s' \<and>
         workerHeap s' = workerHeap pool_waiting \<and>
         workerInfo (taskHeap s' 1) = None \<and>
         effects s' = effects pool_waiting @
           [Callback 1 (Some (Error ''could not be cloned'')) VUndefined])"
proof -
  note f = pool_waiting_fields
  from postTask_outcomes [of 1 pool_waiting 0 E0] postTask_outcomes [of 1 pool_waiting 0 E_fail]
    postTask_outcomes [of 0 pool_waiting 0 E0] f
  show ?thesis
    by (simp add: E0_def E_fail_def Atomics_add_def kRequestCountField_def) blast
qed


theorem worker_error_handling_witness:
  "reachable E0 2 opts_single pool_running \<and> 0 < workerCounter pool_running \<and>
   taskInfos (workerHeap pool_running 0) = [0] \<and>
   (\<exists>s'. on_worker_error E0 0 (Error ''boom'') pool_running = Some (Inr s') \<and>
      taskInfos (workerHeap s' 0) = [] \<and> readyItems s' = [] \<and> pendingItems s' = [1] \<and>
      \<not> workerFailsDuringBootstrap s' \<and>
      effects s' = effects pool_running @
        [Terminate 0, PortClose 0, NewWorker 1, Callback 0 (Some (Error ''boom'')) VNull])"
proof -
  have r: "reachable E0 2 opts_single pool_running"
    by (rule reachable_run [OF pool_single_reachable pool_running_made])
  note f = pool_running_fields
  from worker_error_handling [OF r, of 0 "Error ''boom''"] f r
  show ?thesis by (auto simp: upt_conv_Cons)
qed


subsection \<open>Who holds a descriptor: the invariant on the abstract observables\<close>

lemma ainv_weaken: "ainv H Q T C N \<Longrightarrow> H' \<subseteq> H \<Longrightarrow> ainv H' Q T C N"
  unfolding ainv_def by blast

lemma ainv_done:
  "ainv H Q T C N \<Longrightarrow> t \<in> H \<Longrightarrow> ainv (H - {t}) Q T (C(t := Suc (C t))) N"
  unfolding ainv_def by (auto simp: le_Suc_eq)

lemma ainv_take_map:
  "ainv H Q T C N \<Longrightarrow> ainv (H \<union> set (T w)) Q (T(w := [])) C N"
  unfolding ainv_def by auto

lemma ainv_take_one:
  "ainv H Q T C N \<Longrightarrow> t \<in> set (T w) \<Longrightarrow> ainv (insert t H) Q (T(w := remove1 t (T w))) C N"
  unfolding ainv_def by (auto dest: notin_set_remove1)

lemma ainv_take_queue:
  "ainv H Q T C N \<Longrightarrow> t \<in> set Q \<Longrightarrow> ainv (insert t H) (remove1 t Q) T C N"
  unfolding ainv_def by (auto dest: notin_set_remove1)

lemma ainv_put_queue:
  "ainv H Q T C N \<Longrightarrow> t \<in> H \<Longrightarrow> ainv (H - {t}) (Q @ [t]) T C N"
  unfolding ainv_def by auto

lemma ainv_put_map:
  "ainv H Q T C N \<Longrightarrow> t \<in> H \<Longrightarrow> ainv (H - {t}) Q (T(w := T w @ [t])) C N"
  unfolding ainv_def by auto

lemma ainv_new_task:
  "ainv H Q T C N \<Longrightarrow> ainv (insert N H) Q T C (Suc N)"
  unfolding ainv_def by (auto simp: less_Suc_eq)

lemma ainv_not_held:
  "ainv H Q T C N \<Longrightarrow> t \<in> set Q \<or> t \<in> set (T w) \<Longrightarrow> t \<notin> H"
  unfolding ainv_def by auto

subsection \<open>Observables of the primitive operations\<close>

lemma callbacks_done [simp]:
  "callbacks (TaskInfo_done t e r s) = (callbacks s)(t := callbacks s t + 1)"
  by (auto simp: callbacks_def TaskInfo_done_def fun_eq_iff)

lemma obs_done [simp]:
  "taskQueue (TaskInfo_done t e r s) = taskQueue s"
  "task_maps (TaskInfo_done t e r s) = task_maps s"
  "taskIdCounter (TaskInfo_done t e r s) = taskIdCounter s"
  by (simp_all add: TaskInfo_done_def task_maps_def fun_eq_iff)

lemma same_obs_refl [simp]: "same_obs s s"
  by (simp add: same_obs_def)

lemma same_obs_trans: "same_obs s s1 \<Longrightarrow> same_obs s1 s2 \<Longrightarrow> same_obs s s2"
  by (simp add: same_obs_def)

lemma inv_same_obs: "same_obs s s' \<Longrightarrow> task_inv H s \<Longrightarrow> task_inv H s'"
  by (simp add: same_obs_def task_inv_def)

lemma same_obs_emit [simp]: "\<forall>t. \<not> is_callback t e \<Longrightarrow> same_obs s (emit e s)"
  by (simp add: same_obs_def emit_def callbacks_def task_maps_def fun_eq_iff)

lemma same_obs_update_task [simp]: "same_obs s (update_task t f s)"
  by (simp add: same_obs_def update_task_def callbacks_def task_maps_def fun_eq_iff)

lemma obs_update_worker [simp]:
  "taskQueue (update_worker w f s) = taskQueue s"
  "task_maps (update_worker w f s) = (task_maps s)(w := taskInfos (f (workerHeap s w)))"
  "callbacks (update_worker w f s) = callbacks s"
  "taskIdCounter (update_worker w f s) = taskIdCounter s"
  by (simp_all add: update_worker_def callbacks_def task_maps_def fun_eq_iff)

lemma same_obs_update_worker:
  "taskInfos (f (workerHeap s w)) = taskInfos (workerHeap s w) \<Longrightarrow> same_obs s (update_worker w f s)"
  by (simp add: same_obs_def task_maps_def fun_eq_iff)

lemma same_obs_clearIdleTimeout [simp]: "same_obs s (clearIdleTimeout w s)"
  by (simp add: clearIdleTimeout_def same_obs_def emit_def update_worker_def callbacks_def
      task_maps_def fun_eq_iff)

lemma same_obs_maybeDrain [simp]: "same_obs s (maybeDrain s)"
  by (simp add: maybeDrain_def)

lemma same_obs_unref [simp]: "same_obs s (unref_if_idle w s)"
  by (simp add: unref_if_idle_def)

lemma same_obs_pool_fields [simp]:
  "same_obs s (s\<lparr>pendingItems := p\<rparr>)" "same_obs s (s\<lparr>readyItems := r\<rparr>)"
  "same_obs s (s\<lparr>pendingItems := p, readyItems := r\<rparr>)"
  "same_obs s (s\<lparr>workerFailsDuringBootstrap := b\<rparr>)"
  "same_obs s (s\<lparr>startingUp := b\<rparr>)"
  "same_obs s (s\<lparr>promise := pr\<rparr>)"
  by (simp_all add: same_obs_def callbacks_def task_maps_def fun_eq_iff)

subsection \<open>The invariant through the operations\<close>

lemma inv_weaken: "task_inv H s \<Longrightarrow> H' \<subseteq> H \<Longrightarrow> task_inv H' s"
  unfolding task_inv_def by (rule ainv_weaken)

lemma inv_done: "task_inv H s \<Longrightarrow> t \<in> H \<Longrightarrow> task_inv (H - {t}) (TaskInfo_done t e r s)"
  unfolding task_inv_def by (simp add: ainv_done)

lemma inv_fold_done:
  "task_inv H s \<Longrightarrow> distinct ts \<Longrightarrow> set ts \<subseteq> H \<Longrightarrow>
     task_inv (H - set ts) (fold (\<lambda>t. TaskInfo_done t e r) ts s)"
proof (induction ts arbitrary: H s)
  case Nil
  then show ?case by simp
next
  case (Cons t ts)
  from Cons.prems have "task_inv (H - {t}) (TaskInfo_done t e r s)"
    by (intro inv_done) auto
  from Cons.IH [OF this] Cons.prems
  have "task_inv (H - {t} - set ts) (fold (\<lambda>t. TaskInfo_done t e r) ts (TaskInfo_done t e r s))"
    by auto
  moreover have "H - {t} - set ts = H - set (t # ts)" by auto
  ultimately show ?case by simp
qed

lemma inv_take_map:
  "task_inv H s \<Longrightarrow>
     task_inv (H \<union> set (task_maps s w)) (update_worker w (\<lambda>wi. wi\<lparr>taskInfos := []\<rparr>) s)"
  unfolding task_inv_def by (simp add: ainv_take_map)

lemma inv_take_one:
  "task_inv H s \<Longrightarrow> t \<in> set (task_maps s w) \<Longrightarrow>
     task_inv (insert t H)
       (update_worker w (\<lambda>wi. wi\<lparr>taskInfos := remove1 t (taskInfos wi)\<rparr>) s)"
  unfolding task_inv_def using ainv_take_one [of H _ "task_maps s" _ _ t w]
  by (simp add: task_maps_def)

lemma inv_take_queue:
  "task_inv H s \<Longrightarrow> t \<in> set (taskQueue s) \<Longrightarrow>
     task_inv (insert t H) (s\<lparr>taskQueue := remove1 t (taskQueue s)\<rparr>)"
  unfolding task_inv_def using ainv_take_queue [of H "taskQueue s" _ _ _ t]
  by (simp add: task_maps_def [abs_def] callbacks_def [abs_def])

lemma inv_put_queue:
  "task_inv H s \<Longrightarrow> t \<in> H \<Longrightarrow> task_inv (H - {t}) (s\<lparr>taskQueue := taskQueue s @ [t]\<rparr>)"
  unfolding task_inv_def using ainv_put_queue [of H "taskQueue s" _ _ _ t]
  by (simp add: task_maps_def [abs_def] callbacks_def [abs_def])

lemma inv_put_map:
  "task_inv H s \<Longrightarrow> t \<in> H \<Longrightarrow>
     task_inv (H - {t}) (update_worker w (\<lambda>wi. wi\<lparr>taskInfos := taskInfos wi @ [t]\<rparr>) s)"
  unfolding task_inv_def using ainv_put_map [of H _ "task_maps s" _ _ t w]
  by (simp add: task_maps_def)

lemma inv_new_task:
  "task_inv H s \<Longrightarrow> task_inv (insert (taskIdCounter s) H) (TaskInfo_new tsk xfer name signal s)"
  unfolding task_inv_def using ainv_new_task [of H "taskQueue s" "task_maps s" "callbacks s"]
  by (simp add: TaskInfo_new_def task_maps_def [abs_def] callbacks_def [abs_def])

lemma inv_not_held:
  "task_inv H s \<Longrightarrow> t \<in> set (taskQueue s) \<or> t \<in> set (task_maps s w) \<Longrightarrow> t \<notin> H"
  unfolding task_inv_def by (rule ainv_not_held)

lemma inv_new_worker: "task_inv H s \<Longrightarrow> task_inv H (WorkerInfo_new s)"
proof -
  assume inv: "task_inv H s"
  let ?w = "workerCounter s"
  let ?s1 = "update_worker ?w (\<lambda>wi. wi\<lparr>taskInfos := []\<rparr>) s"
  have "task_inv H ?s1" by (rule inv_weaken [OF inv_take_map [OF inv]]) simp
  moreover have "same_obs ?s1 (WorkerInfo_new s)"
    by (simp add: same_obs_def WorkerInfo_new_def emit_def update_worker_def task_maps_def
        callbacks_def fun_eq_iff)
  ultimately show ?thesis by (rule inv_same_obs [rotated])
qed

lemma inv_postTask:
  assumes "task_inv H s" "t \<in> H" "postTask E w t s = Inr s'"
  shows "task_inv (H - {t}) s'"
proof -
  let ?s1 = "update_task t (\<lambda>ti. ti\<lparr>task := VNull\<rparr>) s"
  have i1: "task_inv H ?s1" by (rule inv_same_obs [OF same_obs_update_task assms(1)])
  show ?thesis
  proof (cases "postMessage E \<lparr>rm_task = task (taskHeap s t), rm_taskId = t,
        rm_filename = ti_filename (taskHeap s t)\<rparr> (transferList (taskHeap s t))")
    case (Some err)
    with assms(3) have "s' = TaskInfo_done t (Some err) VUndefined ?s1"
      by (auto simp: postTask_def Let_def split: if_splits)
    with inv_done [OF i1 assms(2)] show ?thesis by simp
  next
    case None
    let ?s2 = "update_task t (\<lambda>ti. ti\<lparr>workerInfo := Some w\<rparr>) (emit (PostMessage w t) ?s1)"
    let ?s3 = "update_worker w (\<lambda>wi. wi\<lparr>taskInfos := taskInfos wi @ [t]\<rparr>) ?s2"
    let ?s4 = "clearIdleTimeout w (emit (PortRef w) ?s3)"
    let ?s5 = "update_worker w (\<lambda>wi. wi\<lparr>sharedBuffer :=
                               Atomics_add (sharedBuffer wi) kRequestCountField 1\<rparr>)
                           (emit (AtomicsAdd w) ?s4)"
    from None assms(3) have s': "s' = emit (AtomicsNotify w) ?s5"
      by (auto simp: postTask_def Let_def split: if_splits)
    have "same_obs ?s1 ?s2"
      by (intro same_obs_trans [OF same_obs_emit same_obs_update_task]) simp
    from inv_same_obs [OF this i1] have "task_inv H ?s2" .
    from inv_put_map [OF this assms(2)] have i3: "task_inv (H - {t}) ?s3" .
    have a: "same_obs ?s3 ?s4"
      by (rule same_obs_trans [OF same_obs_emit same_obs_clearIdleTimeout]) simp
    have b: "same_obs ?s4 ?s5"
      by (rule same_obs_trans [OF same_obs_emit same_obs_update_worker]) simp_all
    have c: "same_obs ?s5 s'"
      unfolding s' by simp
    have "same_obs ?s3 s'"
      by (rule same_obs_trans [OF same_obs_trans [OF a b] c])
    from inv_same_obs [OF this i3] show ?thesis .
  qed
qed

lemma remove1_hd: "xs \<noteq> [] \<Longrightarrow> remove1 (hd xs) xs = tl xs"
  by (cases xs) simp_all

lemma inv_onWorkerAvailable:
  assumes "task_inv H s" "onWorkerAvailable E w s = Inr s'"
  shows "task_inv H s'"
proof (cases "taskQueue s \<noteq> [] \<and> currentUsage s w < enat (concurrentTasksPerWorker (options s))")
  case True
  let ?t = "hd (taskQueue s)"
  from True have mem: "?t \<in> set (taskQueue s)" by simp
  from inv_take_queue [OF assms(1) mem] True
  have i1: "task_inv (insert ?t H) (s\<lparr>taskQueue := tl (taskQueue s)\<rparr>)"
    by (simp add: remove1_hd)
  from assms(2) True obtain s1 where
    p: "postTask E w ?t (s\<lparr>taskQueue := tl (taskQueue s)\<rparr>) = Inr s1" and s': "s' = maybeDrain s1"
    by (auto simp: onWorkerAvailable_def split: sum.splits)
  from inv_postTask [OF i1 _ p] have "task_inv (insert ?t H - {?t}) s1" by simp
  moreover from inv_not_held [OF assms(1)] mem have "?t \<notin> H" by blast
  ultimately have "task_inv H s1" by simp
  then show ?thesis unfolding s' by (rule inv_same_obs [OF same_obs_maybeDrain])
next
  case False
  with assms(2) have "s' = s \<or>
      s' = update_worker w (\<lambda>wi. wi\<lparr>w_idleTimeout := True\<rparr>) (emit (SetTimeout w) s)"
    by (auto simp: onWorkerAvailable_def split: if_splits)
  moreover have "same_obs s (update_worker w (\<lambda>wi. wi\<lparr>w_idleTimeout := True\<rparr>) (emit (SetTimeout w) s))"
    by (intro same_obs_trans [OF same_obs_emit same_obs_update_worker]) simp_all
  ultimately show ?thesis using assms(1) by (auto intro: inv_same_obs)
qed

lemma inv_maybeAvailable:
  "task_inv H s \<Longrightarrow> maybeAvailable E w s = Inr s' \<Longrightarrow> task_inv H s'"
  by (auto simp: maybeAvailable_def split: if_splits intro: inv_onWorkerAvailable)

lemma inv_onReady_listener:
  "task_inv H s \<Longrightarrow> onReady_listener E w s = Inr s' \<Longrightarrow> task_inv H s'"
  by (auto simp: onReady_listener_def split: if_splits
      intro: inv_maybeAvailable [OF inv_same_obs [OF same_obs_pool_fields(3)]])

lemma inv_addNewWorker:
  assumes "task_inv H s" "addNewWorker E s = Inr s'"
  shows "task_inv H s'"
proof -
  let ?s1 = "(WorkerInfo_new s)\<lparr>pendingItems := pendingItems (WorkerInfo_new s) @ [workerCounter s]\<rparr>"
  have i1: "task_inv H ?s1"
    by (rule inv_same_obs [OF same_obs_pool_fields(1) inv_new_worker [OF assms(1)]])
  from assms(2) have "s' = ?s1 \<or> onReady_listener E (workerCounter s) ?s1 = Inr s'"
    by (auto simp: addNewWorker_def pool_add_def Let_def split: if_splits)
  with i1 show ?thesis by (auto intro: inv_onReady_listener)
qed

lemma inv_ensureMinimumWorkers_result:
  "ensureMinimumWorkers E s = Some r \<Longrightarrow> task_inv H s \<Longrightarrow> \<exists>s'. r = Inr s' \<and> task_inv H s'"
proof (induction rule: ensureMinimumWorkers_induct)
  case (stop E s)
  then show ?case by simp
next
  case (add E s s1 r)
  from add(3) [OF inv_addNewWorker [OF add(4) add(2)]] show ?case .
qed

lemma inv_ensureMinimumWorkers:
  "task_inv H s \<Longrightarrow> ensureMinimumWorkers E s = Some (Inr s') \<Longrightarrow> task_inv H s'"
  using inv_ensureMinimumWorkers_result [of E s "Inr s'" H] by simp

lemma done_update_worker:
  "update_worker w f (TaskInfo_done t e r s) = TaskInfo_done t e r (update_worker w f s)"
  by (simp add: update_worker_def TaskInfo_done_def)

lemma fold_done_update_worker:
  "update_worker w f (fold (\<lambda>t. TaskInfo_done t e r) ts s) =
   fold (\<lambda>t. TaskInfo_done t e r) ts (update_worker w f s)"
  by (induction ts arbitrary: s) (simp_all add: done_update_worker)

lemma inv_destroy: "task_inv H s \<Longrightarrow> task_inv H (destroy w s)"
proof -
  assume inv: "task_inv H s"
  let ?s2 = "clearIdleTimeout w (emit (PortClose w) (emit (Terminate w) s))"
  let ?ts = "taskInfos (workerHeap ?s2 w)"
  have so: "same_obs s ?s2"
    by (intro same_obs_trans [OF _ same_obs_clearIdleTimeout]
        same_obs_trans [OF _ same_obs_emit]) simp_all
  then have ts: "?ts = task_maps s w" by (simp add: same_obs_def task_maps_def fun_eq_iff)
  from inv_same_obs [OF so inv] have i2: "task_inv H ?s2" .
  from inv_take_map [OF i2, of w]
  have i3: "task_inv (H \<union> set ?ts) (update_worker w (\<lambda>wi. wi\<lparr>taskInfos := []\<rparr>) ?s2)"
    by (simp add: task_maps_def)
  from i2 have d: "distinct ?ts" by (simp add: task_inv_def ainv_def task_maps_def)
  from inv_fold_done [OF i3 d]
  have "task_inv (H \<union> set ?ts - set ?ts)
      (fold (\<lambda>t. TaskInfo_done t (Some ThreadTermination) VUndefined) ?ts
         (update_worker w (\<lambda>wi. wi\<lparr>taskInfos := []\<rparr>) ?s2))" by simp
  moreover have "H \<union> set ?ts - set ?ts = H"
    using inv_not_held [OF i2, of _ w] by (auto simp: task_maps_def)
  ultimately show ?thesis
    by (simp add: destroy_def Let_def fold_done_update_worker)
qed

lemma same_obs_pool_delete [simp]: "same_obs s (pool_delete w s)"
  by (simp add: pool_delete_def)

lemma inv_removeWorker: "task_inv H s \<Longrightarrow> task_inv H (removeWorker w s)"
  unfolding removeWorker_def by (intro inv_same_obs [OF same_obs_pool_delete] inv_destroy)

lemma inv_markAsReady:
  assumes "task_inv H s" "markAsReady E w s = Inr s'"
  shows "task_inv H s'"
proof -
  let ?s1 = "update_worker w (\<lambda>wi. wi\<lparr>isReady := True\<rparr>) s"
  have "same_obs s ?s1" by (rule same_obs_update_worker) simp
  from inv_same_obs [OF this assms(1)] have i1: "task_inv H ?s1" .
  from assms(2) have "onReady_listener E w ?s1 = Inr s'"
    by (auto simp: markAsReady_def split: if_splits)
  from inv_onReady_listener [OF i1 this] show ?thesis .
qed

lemma inv_on_ready_message:
  assumes "task_inv H s" "on_ready_message E w s = Inr s'"
  shows "task_inv H s'"
proof -
  let ?s1 = "if currentUsage s w = 0 then emit (PortUnref w) s else s"
  have "same_obs s ?s1" by simp
  from inv_same_obs [OF this assms(1)] have i1: "task_inv H ?s1" .
  from assms(2) have "s' = ?s1 \<or> markAsReady E w ?s1 = Inr s'"
    by (auto simp: on_ready_message_def Let_def split: if_splits)
  with i1 show ?thesis by (auto intro: inv_markAsReady)
qed

lemma inv_on_worker_error:
  assumes "task_inv H s" "on_worker_error E w err s = Some (Inr s')"
  shows "task_inv H s'"
proof -
  let ?ts = "taskInfos (workerHeap s w)"
  let ?s2 = "removeWorker w (update_worker w (\<lambda>wi. wi\<lparr>taskInfos := []\<rparr>) s)"
  from inv_take_map [OF assms(1), of w]
  have i2: "task_inv (H \<union> set ?ts) ?s2" by (auto simp: task_maps_def intro: inv_removeWorker)
  from assms(2) obtain s3 where s3: "ensureMinimumWorkers E ?s2 = Some (Inr s3) \<or>
       s3 = ?s2\<lparr>workerFailsDuringBootstrap := True\<rparr>"
    and fin: "s' = (if ?ts \<noteq> [] then fold (\<lambda>t. TaskInfo_done t (Some err) VNull) ?ts s3
                    else emit (Emit_error err) s3)"
    by (auto simp: on_worker_error_def Let_def split: if_splits option.splits sum.splits)
  from s3 i2 have i3: "task_inv (H \<union> set ?ts) s3"
    by (auto intro: inv_ensureMinimumWorkers inv_same_obs [OF same_obs_pool_fields(4)])
  from assms(1) have d: "distinct ?ts" by (simp add: task_inv_def ainv_def task_maps_def)
  have H: "H \<union> set ?ts - set ?ts = H"
    using inv_not_held [OF assms(1), of _ w] by (auto simp: task_maps_def)
  show ?thesis
  proof (cases "?ts = []")
    case True
    with i3 fin show ?thesis by (auto intro: inv_same_obs [OF same_obs_emit])
  next
    case False
    from inv_fold_done [OF i3 d, of "Some err" VNull] H fin False show ?thesis by simp
  qed
qed

lemma inv_on_abort:
  assumes "task_inv H s" "on_abort E t s = Some (Inr s')"
  shows "task_inv H s'"
proof -
  let ?s1 = "emit (PromiseReject t AbortError)
               (s\<lparr>promise := (promise s)(t := settle (promise s t) (Rejected AbortError))\<rparr>)"
  have "same_obs s ?s1"
    by (rule same_obs_trans [OF same_obs_pool_fields(6) same_obs_emit]) simp
  from inv_same_obs [OF this assms(1)] have i1: "task_inv H ?s1" .
  from assms(2) have "(\<exists>w. ensureMinimumWorkers E (removeWorker w ?s1) = Some (Inr s')) \<or>
      (t \<in> set (taskQueue ?s1) \<and> s' = ?s1\<lparr>taskQueue := remove1 t (taskQueue ?s1)\<rparr>)"
    by (auto simp: on_abort_def Let_def split: option.splits if_splits)
  then show ?thesis
  proof
    assume "\<exists>w. ensureMinimumWorkers E (removeWorker w ?s1) = Some (Inr s')"
    then obtain w where "ensureMinimumWorkers E (removeWorker w ?s1) = Some (Inr s')" ..
    from inv_ensureMinimumWorkers [OF inv_removeWorker [OF i1] this] show ?thesis .
  next
    assume "t \<in> set (taskQueue ?s1) \<and> s' = ?s1\<lparr>taskQueue := remove1 t (taskQueue ?s1)\<rparr>"
    with inv_take_queue [OF i1, of t] have "task_inv (insert t H) s'" by simp
    then show ?thesis by (rule inv_weaken) auto
  qed
qed

lemma inv_on_idle_timeout:
  "task_inv H s \<Longrightarrow> on_idle_timeout w s = Inr s' \<Longrightarrow> task_inv H s'"
  by (auto simp: on_idle_timeout_def split: if_splits intro: inv_removeWorker)

lemma TaskInfo_new_fields [simp]:
  "taskQueue (TaskInfo_new tsk xfer n signal s) = taskQueue s"
  "options (TaskInfo_new tsk xfer n signal s) = options s"
  "taskIdCounter (TaskInfo_new tsk xfer n signal s) = Suc (taskIdCounter s)"
  by (simp_all add: TaskInfo_new_def)

lemma inv_runTask:
  assumes "task_inv H s" "runTask E tsk xfer name signal s = Inr (r, s')"
  shows "task_inv H s'"
proof (cases "case name of None \<Rightarrow> filename (options s) | Some n \<Rightarrow> Some n")
  case None
  with assms show ?thesis by (simp add: runTask_def)
next
  case (Some n)
  let ?t = "taskIdCounter s"
  let ?s1 = "TaskInfo_new tsk xfer (maybeFileURLToPath E n) signal s"
  note i1 = inv_new_task [OF assms(1), of tsk xfer "maybeFileURLToPath E n" signal]
  from assms(1) have fresh: "?t \<notin> H" by (auto simp: task_inv_def ainv_def)
  have restore: "task_inv H x" if "task_inv (insert ?t H - {?t}) x" for x
    using that fresh by simp
  have discard: "task_inv H x" if "task_inv (insert ?t H) x" for x
    using that by (rule inv_weaken) auto
  from assms(2) Some have
    "s' = ?s1 \<or>
     (\<exists>s2. (s2 = ?s1 \<or> addNewWorker E ?s1 = Inr s2) \<and>
        (s' = s2\<lparr>taskQueue := taskQueue s2 @ [?t]\<rparr> \<or> s' = s2 \<or>
         (\<exists>w s3. postTask E w ?t s2 = Inr s3 \<and> s' = maybeDrain s3)))"
    unfolding runTask_def Let_def
    by (auto split: if_splits sum.splits option.splits)
  then consider (rejected) "s' = ?s1"
    | (admitted) s2 where "s2 = ?s1 \<or> addNewWorker E ?s1 = Inr s2"
        "s' = s2\<lparr>taskQueue := taskQueue s2 @ [?t]\<rparr> \<or> s' = s2 \<or>
         (\<exists>w s3. postTask E w ?t s2 = Inr s3 \<and> s' = maybeDrain s3)"
    by blast
  then show ?thesis
  proof cases
    case rejected
    with i1 show ?thesis by (auto intro: discard)
  next
    case admitted
    from admitted(1) i1 have i2: "task_inv (insert ?t H) s2" by (auto intro: inv_addNewWorker)
    from admitted(2) consider (queued) "s' = s2\<lparr>taskQueue := taskQueue s2 @ [?t]\<rparr>"
      | (dropped) "s' = s2"
      | (posted) w s3 where "postTask E w ?t s2 = Inr s3" "s' = maybeDrain s3"
      by blast
    then show ?thesis
    proof cases
      case queued
      from inv_put_queue [OF i2, of ?t] queued show ?thesis by (auto intro: restore)
    next
      case dropped
      with i2 show ?thesis by (auto intro: discard)
    next
      case posted
      from inv_postTask [OF i2 _ posted(1)] have "task_inv H s3" by (auto intro: restore)
      then show ?thesis unfolding posted(2) by (rule inv_same_obs [OF same_obs_maybeDrain])
    qed
  qed
qed

lemma inv_onMessage:
  assumes "task_inv H s" "onMessage E w m s = Inr s'"
  shows "task_inv H s'"
proof -
  let ?t = "rsp_taskId m"
  let ?s1 = "update_worker w (\<lambda>wi. wi\<lparr>taskInfos := remove1 ?t (taskInfos wi)\<rparr>) s"
  from assms(2) obtain s2 where av: "maybeAvailable E w ?s1 = Inr s2"
    and fin: "s' = (if ?t \<notin> set (taskInfos (workerHeap s w))
                    then emit (Emit_error (Error ''Unexpected message from Worker'')) s2
                    else TaskInfo_done ?t (rsp_error m) (rsp_result m) s2)"
    by (auto simp: onMessage_def Let_def split: sum.splits if_splits)
  show ?thesis
  proof (cases "?t \<in> set (taskInfos (workerHeap s w))")
    case True
    from inv_take_one [OF assms(1), of ?t w] True
    have "task_inv (insert ?t H) ?s1" by (simp add: task_maps_def)
    from inv_maybeAvailable [OF this av] have "task_inv (insert ?t H) s2" .
    from inv_done [OF this, of ?t] have "task_inv (insert ?t H - {?t}) s'"
      using True fin by simp
    moreover from inv_not_held [OF assms(1), of ?t w] True have "?t \<notin> H"
      by (simp add: task_maps_def)
    ultimately show ?thesis by simp
  next
    case False
    have "same_obs s ?s1"
      by (rule same_obs_update_worker) (simp add: False remove1_idem)
    from inv_maybeAvailable [OF inv_same_obs [OF this assms(1)] av] have "task_inv H s2" .
    with False fin show ?thesis by (auto intro: inv_same_obs [OF same_obs_emit])
  qed
qed

lemma inv_handleResponse_latched:
  "task_inv H s \<Longrightarrow> handleResponse_latched E w m s = Inr s' \<Longrightarrow> task_inv H s'"
  by (auto simp: handleResponse_latched_def split: sum.splits
      intro: inv_same_obs [OF same_obs_unref] inv_onMessage)

lemma inv_worker_processPendingMessages:
  "task_inv H s \<Longrightarrow> worker_processPendingMessages E w ms s = Inr s' \<Longrightarrow> task_inv H s'"
proof (induction ms arbitrary: s)
  case Nil
  then show ?case by simp
next
  case (Cons m ms)
  from Cons.prems(2) obtain s1 where a: "handleResponse_latched E w m s = Inr s1"
    and b: "worker_processPendingMessages E w ms s1 = Inr s'"
    by (auto split: sum.splits)
  from Cons.IH [OF inv_handleResponse_latched [OF Cons.prems(1) a] b] show ?case .
qed

lemma inv_sweep_workers:
  "task_inv H s \<Longrightarrow> sweep_workers E inbox ws s = Inr s' \<Longrightarrow> task_inv H s'"
proof (induction ws arbitrary: s)
  case Nil
  then show ?case by simp
next
  case (Cons w ws)
  from Cons.prems(2) obtain s1 where a: "worker_processPendingMessages E w (inbox w) s = Inr s1"
    and b: "sweep_workers E inbox ws s1 = Inr s'"
    by (auto split: sum.splits)
  from Cons.IH [OF inv_worker_processPendingMessages [OF Cons.prems(1) a] b] show ?case .
qed

lemma inv_handleResponse:
  assumes "task_inv H s" "handleResponse E inbox w m s = Inr s'"
  shows "task_inv H s'"
proof -
  from assms(2) obtain s1 s2 where a: "onMessage E w m s = Inr s1"
    and b: "processPendingMessages E inbox s1 = Inr s2" and c: "s' = unref_if_idle w s2"
    by (auto simp: handleResponse_def split: sum.splits)
  from b have "s2 = s1 \<or> sweep_workers E inbox (pendingItems s1 @ readyItems s1) s1 = Inr s2"
    by (auto simp: processPendingMessages_def split: if_splits)
  with inv_onMessage [OF assms(1) a] have "task_inv H s2"
    by (auto intro: inv_sweep_workers)
  then show ?thesis unfolding c by (rule inv_same_obs [OF same_obs_unref])
qed

lemma inv_fail_queued: "task_inv H s \<Longrightarrow> task_inv H (fail_queued s)"
proof (induction s rule: fail_queued.induct)
  case (1 s)
  show ?case
  proof (cases "taskQueue s = []")
    case True
    with "1.prems" show ?thesis by (subst fail_queued.simps) simp
  next
    case False
    let ?t = "hd (taskQueue s)"
    from False have mem: "?t \<in> set (taskQueue s)" by simp
    from inv_take_queue [OF "1.prems" mem] False
    have "task_inv (insert ?t H) (s\<lparr>taskQueue := tl (taskQueue s)\<rparr>)"
      by (simp add: remove1_hd)
    from inv_done [OF this, of ?t]
    have "task_inv (insert ?t H - {?t})
        (TaskInfo_done ?t (Some (Error ''Terminating worker thread'')) VUndefined
           (s\<lparr>taskQueue := tl (taskQueue s)\<rparr>))" by simp
    moreover from inv_not_held [OF "1.prems"] mem have "?t \<notin> H" by blast
    ultimately have "task_inv H
        (TaskInfo_done ?t (Some (Error ''Terminating worker thread'')) VUndefined
           (s\<lparr>taskQueue := tl (taskQueue s)\<rparr>))" by simp
    from "1.IH" [OF False this] False show ?thesis by (subst fail_queued.simps) simp
  qed
qed

lemma inv_remove_workers: "task_inv H s \<Longrightarrow> task_inv H (remove_workers s)"
proof (induction s rule: remove_workers.induct)
  case (1 s)
  show ?case
  proof (cases "size_workers s > 0")
    case True
    from "1.IH" [OF True inv_removeWorker [OF "1.prems"]] True
    show ?thesis by (subst remove_workers.simps) simp
  next
    case False
    with "1.prems" show ?thesis by (subst remove_workers.simps) simp
  qed
qed

lemma inv_step: "task_inv H s \<Longrightarrow> step E ev s = Some (Inr s') \<Longrightarrow> task_inv H s'"
proof (cases ev)
  case (Submit tsk xfer name signal)
  assume "task_inv H s" "step E ev s = Some (Inr s')"
  with Submit show ?thesis by (auto split: sum.splits intro: inv_runTask)
qed (auto intro: inv_handleResponse inv_on_ready_message inv_on_worker_error inv_on_abort
       inv_on_idle_timeout inv_remove_workers inv_fail_queued simp: pool_destroy_def)

lemma inv_initial: "task_inv {} (initial_pool filled)"
  by (simp add: task_inv_def ainv_def initial_pool_def task_maps_def callbacks_def blank_worker_def)

lemma reachable_inv: "reachable E cpuCount opts s \<Longrightarrow> task_inv {} s"
proof (induction rule: reachable.induct)
  case (created s)
  then obtain s1 where
    s1: "ensureMinimumWorkers E (initial_pool (ThreadPool_options E cpuCount opts)) = Some (Inr s1)"
    and s: "s = s1\<lparr>startingUp := False\<rparr>"
    by (auto simp: Piscina_new_def ThreadPool_new_def split: option.splits sum.splits)
  from inv_ensureMinimumWorkers [OF inv_initial s1] show ?case
    unfolding s by (rule inv_same_obs [OF same_obs_pool_fields(5)])
next
  case (handled s ev s')
  from inv_step [OF handled(4) handled(3)] show ?case .
qed

subsection \<open>Effects grow; the completion callback\<close>

lemma extends_refl [simp]: "extends s s"
  by (simp add: extends_def)

lemma extends_trans: "extends s s1 \<Longrightarrow> extends s1 s2 \<Longrightarrow> extends s s2"
  by (auto simp: extends_def)

lemma extends_callbacks: "extends s s' \<Longrightarrow> callbacks s t \<le> callbacks s' t"
  by (auto simp: extends_def callbacks_def)

lemma extends_same: "effects s' = effects s \<Longrightarrow> extends s s'"
  by (simp add: extends_def)

lemma extends_emit [simp]: "extends s (emit e s)"
  by (simp add: extends_def emit_def)

lemma extends_done [simp]: "extends s (TaskInfo_done t e r s)"
  by (simp add: extends_def TaskInfo_done_def)

lemma extends_clearIdleTimeout [simp]: "extends s (clearIdleTimeout w s)"
  by (simp add: extends_def clearIdleTimeout_def update_worker_def emit_def)

lemma extends_maybeDrain [simp]: "extends s (maybeDrain s)"
  by (simp add: maybeDrain_def)

lemma extends_unref [simp]: "extends s (unref_if_idle w s)"
  by (simp add: unref_if_idle_def)

lemma extends_postTask: "postTask E w t s = Inr s' \<Longrightarrow> extends s s'"
  by (auto simp: postTask_def Let_def extends_def TaskInfo_done_def clearIdleTimeout_def
        update_worker_def update_task_def emit_def split: if_splits option.splits)

lemma extends_onWorkerAvailable: "onWorkerAvailable E w s = Inr s' \<Longrightarrow> extends s s'"
proof -
  assume run: "onWorkerAvailable E w s = Inr s'"
  then consider (posted) s1 where "postTask E w (hd (taskQueue s)) (s\<lparr>taskQueue := tl (taskQueue s)\<rparr>) = Inr s1"
      "s' = maybeDrain s1"
    | (armed) "s' = update_worker w (\<lambda>wi. wi\<lparr>w_idleTimeout := True\<rparr>) (emit (SetTimeout w) s)"
    | (idle) "s' = s"
    by (auto simp: onWorkerAvailable_def split: if_splits sum.splits)
  then show ?thesis
  proof cases
    case posted
    from extends_postTask [OF posted(1)] have "extends s s1" by (simp add: extends_def)
    then show ?thesis unfolding posted(2) by (rule extends_trans) simp
  next
    case armed
    then show ?thesis by (simp add: extends_def update_worker_def emit_def)
  next
    case idle
    then show ?thesis by simp
  qed
qed

lemma extends_maybeAvailable: "maybeAvailable E w s = Inr s' \<Longrightarrow> extends s s'"
  by (auto simp: maybeAvailable_def split: if_splits dest: extends_onWorkerAvailable)

lemma extends_onMessage: "onMessage E w m s = Inr s' \<Longrightarrow> extends s s'"
proof -
  assume "onMessage E w m s = Inr s'"
  then obtain s2 where
    av: "maybeAvailable E w (update_worker w (\<lambda>wi. wi\<lparr>taskInfos := remove1 (rsp_taskId m) (taskInfos wi)\<rparr>) s) = Inr s2"
    and fin: "s' = emit (Emit_error (Error ''Unexpected message from Worker'')) s2 \<or>
              s' = TaskInfo_done (rsp_taskId m) (rsp_error m) (rsp_result m) s2"
    by (auto simp: onMessage_def Let_def split: sum.splits if_splits)
  from extends_maybeAvailable [OF av] have "extends s s2"
    by (simp add: extends_def update_worker_def)
  moreover from fin have "extends s2 s'" by auto
  ultimately show ?thesis by (rule extends_trans)
qed

lemma extends_handleResponse_latched:
  "handleResponse_latched E w m s = Inr s' \<Longrightarrow> extends s s'"
  by (auto simp: handleResponse_latched_def split: sum.splits
      intro: extends_trans [OF extends_onMessage extends_unref])

lemma extends_worker_processPendingMessages:
  "worker_processPendingMessages E w ms s = Inr s' \<Longrightarrow> extends s s'"
proof (induction ms arbitrary: s)
  case Nil
  then show ?case by simp
next
  case (Cons m ms)
  from Cons.prems obtain s1 where a: "handleResponse_latched E w m s = Inr s1"
    and b: "worker_processPendingMessages E w ms s1 = Inr s'"
    by (auto split: sum.splits)
  from extends_trans [OF extends_handleResponse_latched [OF a] Cons.IH [OF b]] show ?case .
qed

lemma extends_sweep_workers: "sweep_workers E inbox ws s = Inr s' \<Longrightarrow> extends s s'"
proof (induction ws arbitrary: s)
  case Nil
  then show ?case by simp
next
  case (Cons w ws)
  from Cons.prems obtain s1 where a: "worker_processPendingMessages E w (inbox w) s = Inr s1"
    and b: "sweep_workers E inbox ws s1 = Inr s'"
    by (auto split: sum.splits)
  from extends_trans [OF extends_worker_processPendingMessages [OF a] Cons.IH [OF b]]
  show ?case .
qed

lemma count_callbacks_map:
  "t \<in> set ts \<Longrightarrow> Suc 0 \<le> length (filter (is_callback t \<circ> (\<lambda>t. Callback t e r)) ts)"
  by (induction ts) auto

lemma callbacks_fold_done:
  "t \<in> set ts \<Longrightarrow> 1 \<le> callbacks (fold (\<lambda>t. TaskInfo_done t e r) ts s) t"
  using count_callbacks_map [of t ts e r] by (simp add: callbacks_def)

lemma callbacks_spawn [simp]: "callbacks (spawn n s) = callbacks s"
  by (simp add: callbacks_def fun_eq_iff)

lemma callbacks_destroy: "t \<in> set (taskInfos (workerHeap s w)) \<Longrightarrow> 1 \<le> callbacks (destroy w s) t"
  using count_callbacks_map [of t "taskInfos (workerHeap s w)" "Some ThreadTermination" VUndefined]
  by (simp add: callbacks_def destroy_fields)

lemma extends_fold_done [simp]: "extends s (fold (\<lambda>t. TaskInfo_done t e r) ts s)"
  by (simp add: extends_def)

lemma extends_removeWorker [simp]: "extends s (removeWorker w s)"
  by (simp add: extends_def removeWorker_fields destroy_fields)

lemma extends_remove_workers: "extends s (remove_workers s)"
proof (induction s rule: remove_workers.induct)
  case (1 s)
  show ?case
  proof (cases "size_workers s > 0")
    case True
    from extends_trans [OF extends_removeWorker "1" [OF True]] True
    show ?thesis by (subst remove_workers.simps) simp
  next
    case False
    then show ?thesis by (subst remove_workers.simps) simp
  qed
qed

lemma extends_fail_queued: "extends s (fail_queued s)"
proof (induction s rule: fail_queued.induct)
  case (1 s)
  show ?case
  proof (cases "taskQueue s = []")
    case True
    then show ?thesis by (subst fail_queued.simps) simp
  next
    case False
    have "extends s (TaskInfo_done (hd (taskQueue s)) (Some (Error ''Terminating worker thread''))
                VUndefined (s\<lparr>taskQueue := tl (taskQueue s)\<rparr>))"
      by (simp add: extends_def TaskInfo_done_def)
    from extends_trans [OF this "1" [OF False]] False
    show ?thesis by (subst fail_queued.simps) simp
  qed
qed

lemma callbacks_fail_queued:
  "t \<in> set (taskQueue s) \<Longrightarrow> 1 \<le> callbacks (fail_queued s) t"
proof (induction s rule: fail_queued.induct)
  case (1 s)
  from "1.prems" have ne: "taskQueue s \<noteq> []" by auto
  let ?s1 = "TaskInfo_done (hd (taskQueue s)) (Some (Error ''Terminating worker thread''))
                VUndefined (s\<lparr>taskQueue := tl (taskQueue s)\<rparr>)"
  have unfold: "fail_queued s = fail_queued ?s1"
    using ne by (subst fail_queued.simps) simp
  show ?case
  proof (cases "t = hd (taskQueue s)")
    case True
    then have "1 \<le> callbacks ?s1 t" by simp
    with extends_callbacks [OF extends_fail_queued, of ?s1 t] show ?thesis
      unfolding unfold by linarith
  next
    case False
    with "1.prems" ne have "t \<in> set (taskQueue ?s1)"
      by (cases "taskQueue s") auto
    from "1.IH" [OF ne this] show ?thesis unfolding unfold .
  qed
qed

lemma inv_callbacks: "task_inv H s \<Longrightarrow> callbacks s t \<le> 1"
  by (simp add: task_inv_def ainv_def)

text \<open>
  Claim C1, as amended.  In every state a constructed pool can reach, the
  completion callback of a descriptor has run at most once, and not at all while the
  descriptor waits in the queue or is in a task map.  It has run exactly once after the
  response for a descriptor in a task map is handled (success or remote error), after the
  worker holding it is removed (thread termination), after that worker emits an error,
  after the abort of a descriptor that has been dispatched, and, for a descriptor in the
  queue, after the pool is destroyed.  The abort of a
  descriptor still in the queue rejects the promise and removes the descriptor from the
  queue without running the callback, and no container holds it afterwards.
\<close>

theorem callback_at_most_once:
  assumes "reachable E cpuCount opts s"
  shows "callbacks s t \<le> 1 \<and>
     (t \<in> set (taskQueue s) \<or> t \<in> set (taskInfos (workerHeap s w)) \<longrightarrow> callbacks s t = 0) \<and>
     (t \<in> set (taskInfos (workerHeap s w)) \<and> rsp_taskId m = t \<and>
        handleResponse E inbox w m s = Inr s' \<longrightarrow> callbacks s' t = 1) \<and>
     (t \<in> set (taskInfos (workerHeap s w)) \<longrightarrow> callbacks (removeWorker w s) t = 1) \<and>
     (t \<in> set (taskInfos (workerHeap s w)) \<and> on_worker_error E w err s = Some (Inr s') \<longrightarrow>
        callbacks s' t = 1) \<and>
     (t \<in> set (taskInfos (workerHeap s w)) \<and> workerInfo (taskHeap s t) = Some w \<and>
        on_abort E t s = Some (Inr s') \<longrightarrow> callbacks s' t = 1) \<and>
     (t \<in> set (taskQueue s) \<longrightarrow> callbacks (pool_destroy s) t = 1) \<and>
     (t \<in> set (taskQueue s) \<and> workerInfo (taskHeap s t) = None \<and>
        on_abort E t s = Some (Inr s') \<longrightarrow>
        callbacks s' t = 0 \<and> promise s' t = settle (promise s t) (Rejected AbortError) \<and>
        t \<notin> set (taskQueue s') \<and> (\<forall>w'. t \<notin> set (taskInfos (workerHeap s' w'))))"
proof -
  note inv = reachable_inv [OF assms]
  from reachable_ok [OF assms] have st: "\<not> startingUp s"
    and fin: "minThreads (options s) \<noteq> Infinity"
    by (auto simp: pool_ok_def)
  have once: "callbacks x t = 1" if "task_inv {} x" "1 \<le> callbacks x t" for x
    using inv_callbacks [OF that(1), of t] that(2) by simp
  have a: "callbacks s t \<le> 1" by (rule inv_callbacks [OF inv])
  have b: "callbacks s t = 0" if "t \<in> set (taskQueue s) \<or> t \<in> set (taskInfos (workerHeap s w))"
    using inv that by (auto simp: task_inv_def ainv_def task_maps_def)
  have c: "callbacks s' t = 1"
    if "t \<in> set (taskInfos (workerHeap s w))" "rsp_taskId m = t"
      "handleResponse E inbox w m s = Inr s'"
  proof -
    from that(3) obtain s1 s2 where om: "onMessage E w m s = Inr s1"
      and pp: "processPendingMessages E inbox s1 = Inr s2" and s': "s' = unref_if_idle w s2"
      by (auto simp: handleResponse_def split: sum.splits)
    from om that(1,2) obtain s0 where "s1 = TaskInfo_done t (rsp_error m) (rsp_result m) s0"
      by (auto simp: onMessage_def Let_def split: sum.splits)
    then have "1 \<le> callbacks s1 t" by simp
    moreover from pp have "extends s1 s2"
      by (auto simp: processPendingMessages_def split: if_splits dest: extends_sweep_workers)
    moreover have "extends s2 s'" unfolding s' by simp
    ultimately have "1 \<le> callbacks s' t"
      using extends_callbacks [of s1 s2 t] extends_callbacks [of s2 s' t] by linarith
    with inv_handleResponse [OF inv that(3)] show ?thesis by (rule once)
  qed
  have d: "callbacks (removeWorker w s) t = 1" if "t \<in> set (taskInfos (workerHeap s w))"
  proof (rule once [OF inv_removeWorker [OF inv]])
    from callbacks_destroy [OF that] show "1 \<le> callbacks (removeWorker w s) t"
      by (simp add: callbacks_def removeWorker_fields)
  qed
  have e: "callbacks s' t = 1"
    if "t \<in> set (taskInfos (workerHeap s w))" "on_worker_error E w err s = Some (Inr s')"
  proof (rule once [OF inv_on_worker_error [OF inv that(2)]])
    from that obtain s3 where
      "s' = fold (\<lambda>t. TaskInfo_done t (Some err) VNull) (taskInfos (workerHeap s w)) s3"
      by (auto simp: on_worker_error_def Let_def split: option.splits sum.splits if_splits)
    with callbacks_fold_done [OF that(1)] show "1 \<le> callbacks s' t" by simp
  qed
  have f: "callbacks s' t = 1"
    if "t \<in> set (taskInfos (workerHeap s w))" "workerInfo (taskHeap s t) = Some w"
      "on_abort E t s = Some (Inr s')"
  proof (rule once [OF inv_on_abort [OF inv that(3)]])
    let ?s1 = "emit (PromiseReject t AbortError)
                 (s\<lparr>promise := (promise s)(t := settle (promise s t) (Rejected AbortError))\<rparr>)"
    have ns: "\<not> startingUp (removeWorker w ?s1)" using st by (simp add: removeWorker_fields)
    have nf: "minThreads (options (removeWorker w ?s1)) \<noteq> Infinity"
      using fin by (simp add: removeWorker_fields)
    from that(2,3) have "ensureMinimumWorkers E (removeWorker w ?s1) = Some (Inr s')"
      by (simp add: on_abort_def Let_def)
    with ensureMinimumWorkers_spawn [OF ns nf, of E]
    have "callbacks s' t = callbacks (removeWorker w ?s1) t" by auto
    moreover have "1 \<le> callbacks (destroy w ?s1) t"
      by (rule callbacks_destroy) (simp add: that(1))
    ultimately show "1 \<le> callbacks s' t"
      by (simp add: callbacks_def removeWorker_fields)
  qed
  have g: "callbacks s' t = 0 \<and> promise s' t = settle (promise s t) (Rejected AbortError) \<and>
        t \<notin> set (taskQueue s') \<and> (\<forall>w'. t \<notin> set (taskInfos (workerHeap s' w')))"
    if "t \<in> set (taskQueue s)" "workerInfo (taskHeap s t) = None"
      "on_abort E t s = Some (Inr s')"
  proof -
    from that have s': "s' = (emit (PromiseReject t AbortError)
          (s\<lparr>promise := (promise s)(t := settle (promise s t) (Rejected AbortError))\<rparr>))
          \<lparr>taskQueue := remove1 t (taskQueue s)\<rparr>"
      by (simp add: on_abort_def Let_def)
    from inv have "distinct (taskQueue s)" "\<forall>w'. t \<notin> set (taskInfos (workerHeap s w'))"
      using that(1) by (auto simp: task_inv_def ainv_def task_maps_def)
    with b that(1) show ?thesis
      unfolding s' by (simp add: callbacks_def)
  qed
  have h: "callbacks (pool_destroy s) t = 1" if "t \<in> set (taskQueue s)"
  proof (rule once)
    show "task_inv {} (pool_destroy s)"
      unfolding pool_destroy_def by (intro inv_remove_workers inv_fail_queued inv)
    from callbacks_fail_queued [OF that]
      extends_callbacks [OF extends_remove_workers, of "fail_queued s" t]
    show "1 \<le> callbacks (pool_destroy s) t"
      unfolding pool_destroy_def by linarith
  qed
  from a b c d e f g h show ?thesis by blast
qed

subsection \<open>Two runs of the scheduler\<close>

lemmas destroy_defs = pool_destroy_def fail_queued.simps remove_workers.simps clearIdleTimeout_def

text \<open>
  Claim C1 as stated fails: a task is dispatched, a second task with an abort
  signal is queued and then aborted, and the pool is destroyed.  The promise of the
  second task is rejected as aborted, its callback has not run, and nothing holds the
  descriptor any more.
\<close>

theorem callback_exactly_once_counterexample:
  "run E0 [Submit (VNum 1) None None (Some 7), Submit (VNum 2) None None (Some 8),
           Abort 1, Destroy] pool_single = Some (Inr pool_aborted) \<and>
   promise pool_aborted 1 = Rejected AbortError \<and>
   callbacks pool_aborted 1 = 0 \<and>
   taskQueue pool_aborted = [] \<and> pendingItems pool_aborted = [] \<and> readyItems pool_aborted = []"
  by (simp add: pool_aborted_def pool_abortable_def pool_single_def eval_defs opts_single_def
      run_defs destroy_defs one_enat_def zero_enat_def)

theorem callback_at_most_once_witness:
  "reachable E0 2 opts_single pool_abortable \<and>
   1 \<in> set (taskQueue pool_abortable) \<and> 0 \<in> set (taskInfos (workerHeap pool_abortable 0)) \<and>
   callbacks pool_abortable 1 = 0 \<and> callbacks pool_abortable 0 = 0 \<and>
   handleResponse E0 (\<lambda>w. []) 0 response_0 pool_abortable =
     Inr (pool_of (Some (handleResponse E0 (\<lambda>w. []) 0 response_0 pool_abortable))) \<and>
   callbacks (pool_of (Some (handleResponse E0 (\<lambda>w. []) 0 response_0 pool_abortable))) 0 = 1 \<and>
   on_abort E0 1 pool_abortable = Some (Inr (pool_of (on_abort E0 1 pool_abortable))) \<and>
   callbacks (pool_of (on_abort E0 1 pool_abortable)) 1 = 0"
proof -
  note r = pool_abortable_reachable
  note f = pool_abortable_fields
  have resp: "handleResponse E0 (\<lambda>w. []) 0 response_0 pool_abortable =
     Inr (pool_of (Some (handleResponse E0 (\<lambda>w. []) 0 response_0 pool_abortable)))"
    by (simp add: pool_abortable_def pool_single_def eval_defs opts_single_def
      run_defs response_0_def one_enat_def zero_enat_def)
  have ab: "on_abort E0 1 pool_abortable = Some (Inr (pool_of (on_abort E0 1 pool_abortable)))"
    by (simp add: pool_abortable_def pool_single_def eval_defs opts_single_def
      run_defs one_enat_def zero_enat_def)
  have id: "rsp_taskId response_0 = 0" by (simp add: response_0_def)
  from callback_at_most_once [OF r, of 0 0 response_0 "\<lambda>w. []"
      "pool_of (Some (handleResponse E0 (\<lambda>w. []) 0 response_0 pool_abortable))"]
    callback_at_most_once [OF r, of 1 0 response_0 "\<lambda>w. []"
      "pool_of (on_abort E0 1 pool_abortable)"]
    r f resp ab id
  show ?thesis by simp
qed

text \<open>
  Claim C2 fails on the path through \<^verbatim>\<open>_onWorkerAvailable\<close>, which takes the
  head of the queue without looking at its abort signal.  One worker with
  \<^verbatim>\<open>concurrentTasksPerWorker = 2\<close> runs two plain tasks; an abortable task is queued;
  when the response of the first task arrives, the abortable task is posted to the
  worker that still runs the second task.  Aborting it then fails the second task
  with the termination error.
\<close>

theorem abortable_task_shares_worker:
  "Piscina_new E0 2 opts_shared = Some (Inr pool_two) \<and>
   run E0 [Submit (VNum 1) None None None, Submit (VNum 2) None None None,
           Submit (VNum 3) None None (Some 7), Response 0 response_0 (\<lambda>w. [])] pool_two =
     Some (Inr pool_shared) \<and>
   concurrentTasksPerWorker (options pool_shared) = 2 \<and>
   taskInfos (workerHeap pool_shared 0) = [1, 2] \<and>
   abortSignal (taskHeap pool_shared 1) = None \<and>
   abortSignal (taskHeap pool_shared 2) = Some 7 \<and>
   promise (pool_of (on_abort E0 2 pool_shared)) 2 = Rejected AbortError \<and>
   promise (pool_of (on_abort E0 2 pool_shared)) 1 = Rejected ThreadTermination"
  by (simp add: pool_shared_def pool_two_def eval_defs opts_shared_def run_defs
      response_0_def one_enat_def zero_enat_def numeral_2_eq_2 clearIdleTimeout_def)

end
